theory Spec2Isabelle
  imports Main "HOL-Library.Word"
begin

unbundle bit_operations_syntax

section \<open>Machine types\<close>

text \<open>
  The library works on the fixed-width unsigned types of \<^verbatim>\<open>stdint.h\<close>, on
  \<^verbatim>\<open>unsigned\<close> (32 bits) and on \<^verbatim>\<open>size_t\<close>, which is taken to be 64 bits wide
  (an LP64 target). Unsigned arithmetic wraps around, as word arithmetic does.
  Operands narrower than \<^verbatim>\<open>int\<close> are promoted by C before an operator is applied;
  where the source mixes them with an unsigned literal (\<^verbatim>\<open>0u\<close>, \<^verbatim>\<open>1u\<close>) the
  32-bit computation and the cast back are written out with \<open>ucast\<close>. Where both
  operands are narrow and the result is cast back to the narrow type at once, the
  operator is applied at the narrow width, which yields the same low bits.
\<close>

type_synonym u8 = "8 word"
type_synonym u16 = "16 word"
type_synonym u32 = "32 word"
type_synonym u64 = "64 word"
type_synonym size_t = "64 word"
type_synonym unsigned = "32 word"

section \<open>Masks and predicates\<close>

definition flat_mask_from_bit_u8 :: "unsigned \<Rightarrow> u8" where
  "flat_mask_from_bit_u8 b = 0 - ucast (b AND 1)"

definition flat_mask_from_bit_u16 :: "unsigned \<Rightarrow> u16" where
  "flat_mask_from_bit_u16 b = 0 - ucast (b AND 1)"

definition flat_mask_from_bit_u32 :: "unsigned \<Rightarrow> u32" where
  "flat_mask_from_bit_u32 b = 0 - ucast (b AND 1)"

definition flat_mask_from_bit_u64 :: "unsigned \<Rightarrow> u64" where
  "flat_mask_from_bit_u64 b = 0 - ucast (b AND 1)"

definition flat_mask_from_bit_sz :: "unsigned \<Rightarrow> size_t" where
  "flat_mask_from_bit_sz b = 0 - ucast (b AND 1)"

definition flat_mask_is_zero_u8 :: "u8 \<Rightarrow> u8" where
  "flat_mask_is_zero_u8 x =
     ucast ((ucast (drop_bit 7 (x OR ucast (0 - (ucast x :: u32)))) :: u32) - 1)"

definition flat_mask_is_zero_u32 :: "u32 \<Rightarrow> u32" where
  "flat_mask_is_zero_u32 x = drop_bit 31 (x OR (0 - x)) - 1"

definition flat_mask_is_zero_u64 :: "u64 \<Rightarrow> u64" where
  "flat_mask_is_zero_u64 x = drop_bit 63 (x OR (0 - x)) - 1"

definition flat_mask_is_zero_sz :: "size_t \<Rightarrow> size_t" where
  "flat_mask_is_zero_sz x = drop_bit (8 * 8 - 1) (x OR (0 - x)) - 1"

definition flat_mask_eq_u32 :: "u32 \<Rightarrow> u32 \<Rightarrow> u32" where
  "flat_mask_eq_u32 a b = flat_mask_is_zero_u32 (a XOR b)"

definition flat_mask_eq_sz :: "size_t \<Rightarrow> size_t \<Rightarrow> size_t" where
  "flat_mask_eq_sz a b = flat_mask_is_zero_sz (a XOR b)"

definition flat_mask_lt_u8 :: "u8 \<Rightarrow> u8 \<Rightarrow> u8" where
  "flat_mask_lt_u8 a b =
     (let t = drop_bit 7 (a XOR ((a XOR b) OR ((a - b) XOR b)))
      in ucast (0 - ((ucast t :: u32) AND 1)))"

definition flat_mask_lt_u16 :: "u16 \<Rightarrow> u16 \<Rightarrow> u16" where
  "flat_mask_lt_u16 a b =
     (let t = drop_bit 15 (a XOR ((a XOR b) OR ((a - b) XOR b)))
      in ucast (0 - ((ucast t :: u32) AND 1)))"

definition flat_mask_lt_u32 :: "u32 \<Rightarrow> u32 \<Rightarrow> u32" where
  "flat_mask_lt_u32 a b =
     (let t = drop_bit 31 (a XOR ((a XOR b) OR ((a - b) XOR b)))
      in 0 - (t AND 1))"

definition flat_mask_lt_u64 :: "u64 \<Rightarrow> u64 \<Rightarrow> u64" where
  "flat_mask_lt_u64 a b =
     (let t = drop_bit 63 (a XOR ((a XOR b) OR ((a - b) XOR b)))
      in 0 - (t AND 1))"

definition flat_mask_lt_sz :: "size_t \<Rightarrow> size_t \<Rightarrow> size_t" where
  "flat_mask_lt_sz a b =
     (let W = 8 * 8 - 1;
          t = drop_bit W (a XOR ((a XOR b) OR ((a - b) XOR b)))
      in 0 - (t AND 1))"

definition flat_mask_to_bit_u32 :: "u32 \<Rightarrow> unsigned" where
  "flat_mask_to_bit_u32 m = m AND 1"

section \<open>Selectors\<close>

definition flat_select_u8_mask :: "u8 \<Rightarrow> u8 \<Rightarrow> u8 \<Rightarrow> u8" where
  "flat_select_u8_mask yes no m = (yes AND m) OR (no AND NOT m)"

definition flat_select_u16_mask :: "u16 \<Rightarrow> u16 \<Rightarrow> u16 \<Rightarrow> u16" where
  "flat_select_u16_mask yes no m = (yes AND m) OR (no AND NOT m)"

definition flat_select_u32_mask :: "u32 \<Rightarrow> u32 \<Rightarrow> u32 \<Rightarrow> u32" where
  "flat_select_u32_mask yes no m = (yes AND m) OR (no AND NOT m)"

definition flat_select_u64_mask :: "u64 \<Rightarrow> u64 \<Rightarrow> u64 \<Rightarrow> u64" where
  "flat_select_u64_mask yes no m = (yes AND m) OR (no AND NOT m)"

definition flat_select_sz_mask :: "size_t \<Rightarrow> size_t \<Rightarrow> size_t \<Rightarrow> size_t" where
  "flat_select_sz_mask yes no m = (yes AND m) OR (no AND NOT m)"

definition flat_select_u8 :: "unsigned \<Rightarrow> u8 \<Rightarrow> u8 \<Rightarrow> u8" where
  "flat_select_u8 cond yes no = flat_select_u8_mask yes no (flat_mask_from_bit_u8 cond)"

definition flat_select_u16 :: "unsigned \<Rightarrow> u16 \<Rightarrow> u16 \<Rightarrow> u16" where
  "flat_select_u16 cond yes no = flat_select_u16_mask yes no (flat_mask_from_bit_u16 cond)"

definition flat_select_u32 :: "unsigned \<Rightarrow> u32 \<Rightarrow> u32 \<Rightarrow> u32" where
  "flat_select_u32 cond yes no = flat_select_u32_mask yes no (flat_mask_from_bit_u32 cond)"

definition flat_select_u64 :: "unsigned \<Rightarrow> u64 \<Rightarrow> u64 \<Rightarrow> u64" where
  "flat_select_u64 cond yes no = flat_select_u64_mask yes no (flat_mask_from_bit_u64 cond)"

definition flat_select_sz :: "unsigned \<Rightarrow> size_t \<Rightarrow> size_t \<Rightarrow> size_t" where
  "flat_select_sz cond yes no = flat_select_sz_mask yes no (flat_mask_from_bit_sz cond)"

definition flat_min_sz :: "size_t \<Rightarrow> size_t \<Rightarrow> size_t" where
  "flat_min_sz a b = (let m = flat_mask_lt_sz a b in b XOR ((a XOR b) AND m))"


section \<open>Buffers\<close>

text \<open>
  A buffer is the list of its elements; a function that writes to a buffer returns the
  new contents. The C functions trust the caller with the length argument: an access
  beyond the end of a buffer is undefined behaviour, which the model reports as the
  value \<open>Inl OutOfBounds\<close> instead of reading \<open>xs ! i\<close> out of range. Every loop
  below reads and writes positions in \<open>0 ..< len\<close> only, so one bound check before
  the loop covers all its accesses. Loop counters are natural numbers: they stay below the
  length argument and never wrap.
\<close>

datatype fault = OutOfBounds

subsection \<open>Conditional copy\<close>

fun memcpy_when_loop :: "u8 \<Rightarrow> u8 list \<Rightarrow> u8 list \<Rightarrow> nat \<Rightarrow> u8 list" where
  "memcpy_when_loop m dst src 0 = dst"
| "memcpy_when_loop m dst src (Suc i) =
     (let d = memcpy_when_loop m dst src i;
          v = (src ! i AND m) OR (d ! i AND NOT m)
      in d[i := v])"

definition flat_memcpy_when :: "unsigned \<Rightarrow> u8 list \<Rightarrow> u8 list \<Rightarrow> size_t \<Rightarrow> fault + u8 list" where
  "flat_memcpy_when cond dst src len =
     (if unat len \<le> length dst \<and> unat len \<le> length src
      then Inr (memcpy_when_loop (flat_mask_from_bit_u8 cond) dst src (unat len))
      else Inl OutOfBounds)"

subsection \<open>Equality and ordering of buffers\<close>

fun mem_eq_loop :: "u8 list \<Rightarrow> u8 list \<Rightarrow> nat \<Rightarrow> u32" where
  "mem_eq_loop a b 0 = 0"
| "mem_eq_loop a b (Suc i) = mem_eq_loop a b i OR ucast (a ! i XOR b ! i)"

definition flat_mem_eq :: "u8 list \<Rightarrow> u8 list \<Rightarrow> size_t \<Rightarrow> fault + int" where
  "flat_mem_eq a b len =
     (if unat len \<le> length a \<and> unat len \<le> length b
      then Inr (sint (flat_mask_is_zero_u32 (mem_eq_loop a b (unat len)) AND 1))
      else Inl OutOfBounds)"

text \<open>The loop state is \<open>(seen, lt, gt)\<close>.\<close>

fun mem_cmp_loop :: "u8 list \<Rightarrow> u8 list \<Rightarrow> nat \<Rightarrow> u32 \<times> u32 \<times> u32" where
  "mem_cmp_loop a b 0 = (0, 0, 0)"
| "mem_cmp_loop a b (Suc i) =
     (case mem_cmp_loop a b i of (seen, lt, gt) \<Rightarrow>
        let ai = ucast (a ! i) :: u32;
            bi = ucast (b ! i) :: u32;
            m_lt = flat_mask_lt_u32 ai bi;
            m_gt = flat_mask_lt_u32 bi ai;
            m_ne = NOT (flat_mask_eq_u32 ai bi);
            take = NOT seen
        in (seen OR (take AND m_ne), lt OR (take AND m_lt), gt OR (take AND m_gt)))"

definition flat_mem_cmp :: "u8 list \<Rightarrow> u8 list \<Rightarrow> size_t \<Rightarrow> fault + int" where
  "flat_mem_cmp a b len =
     (if unat len \<le> length a \<and> unat len \<le> length b
      then (case mem_cmp_loop a b (unat len) of (seen, lt, gt) \<Rightarrow>
              Inr (sint (flat_mask_to_bit_u32 gt) - sint (flat_mask_to_bit_u32 lt)))
      else Inl OutOfBounds)"

text \<open>
  The reference the ordering is compared with: the sign of \<^verbatim>\<open>memcmp\<close>, decided by
  the first position where the two buffers differ, bytes compared as unsigned.
\<close>

fun memcmp_sign :: "u8 list \<Rightarrow> u8 list \<Rightarrow> int" where
  "memcmp_sign (x # xs) (y # ys) =
     (if x < y then - 1 else if y < x then 1 else memcmp_sign xs ys)"
| "memcmp_sign _ _ = 0"

subsection \<open>Lookup by a full scan\<close>

fun lookup_u8_loop :: "u8 list \<Rightarrow> size_t \<Rightarrow> nat \<Rightarrow> u8" where
  "lookup_u8_loop arr idx 0 = 0"
| "lookup_u8_loop arr idx (Suc i) =
     (let out = lookup_u8_loop arr idx i;
          m = ucast (flat_mask_eq_sz (of_nat i) idx) :: u8
      in (arr ! i AND m) OR (out AND NOT m))"

definition flat_lookup_u8 :: "u8 list \<Rightarrow> size_t \<Rightarrow> size_t \<Rightarrow> fault + u8" where
  "flat_lookup_u8 arr len idx =
     (if unat len \<le> length arr then Inr (lookup_u8_loop arr idx (unat len))
      else Inl OutOfBounds)"

fun lookup_u16_loop :: "u16 list \<Rightarrow> size_t \<Rightarrow> nat \<Rightarrow> u16" where
  "lookup_u16_loop arr idx 0 = 0"
| "lookup_u16_loop arr idx (Suc i) =
     (let out = lookup_u16_loop arr idx i;
          m = ucast (flat_mask_eq_sz (of_nat i) idx) :: u16
      in (arr ! i AND m) OR (out AND NOT m))"

definition flat_lookup_u16 :: "u16 list \<Rightarrow> size_t \<Rightarrow> size_t \<Rightarrow> fault + u16" where
  "flat_lookup_u16 arr len idx =
     (if unat len \<le> length arr then Inr (lookup_u16_loop arr idx (unat len))
      else Inl OutOfBounds)"

fun lookup_u32_loop :: "u32 list \<Rightarrow> size_t \<Rightarrow> nat \<Rightarrow> u32" where
  "lookup_u32_loop arr idx 0 = 0"
| "lookup_u32_loop arr idx (Suc i) =
     (let out = lookup_u32_loop arr idx i;
          m = ucast (flat_mask_eq_sz (of_nat i) idx) :: u32
      in (arr ! i AND m) OR (out AND NOT m))"

definition flat_lookup_u32 :: "u32 list \<Rightarrow> size_t \<Rightarrow> size_t \<Rightarrow> fault + u32" where
  "flat_lookup_u32 arr len idx =
     (if unat len \<le> length arr then Inr (lookup_u32_loop arr idx (unat len))
      else Inl OutOfBounds)"

fun lookup_u64_loop :: "u64 list \<Rightarrow> size_t \<Rightarrow> nat \<Rightarrow> u64" where
  "lookup_u64_loop arr idx 0 = 0"
| "lookup_u64_loop arr idx (Suc i) =
     (let out = lookup_u64_loop arr idx i;
          m = ucast (flat_mask_eq_sz (of_nat i) idx) :: u64
      in (arr ! i AND m) OR (out AND NOT m))"

definition flat_lookup_u64 :: "u64 list \<Rightarrow> size_t \<Rightarrow> size_t \<Rightarrow> fault + u64" where
  "flat_lookup_u64 arr len idx =
     (if unat len \<le> length arr then Inr (lookup_u64_loop arr idx (unat len))
      else Inl OutOfBounds)"

subsection \<open>Zero-padding scan\<close>

text \<open>
  The loop runs \<open>i\<close> from \<open>len\<close> down to \<open>1\<close>; the state is \<open>(data_len, seen)\<close>.
  The equation for \<open>Suc j\<close> is the iteration with \<open>i = Suc j\<close>.
\<close>

fun zeropad_loop :: "u8 list \<Rightarrow> nat \<Rightarrow> size_t \<times> size_t \<Rightarrow> size_t \<times> size_t" where
  "zeropad_loop buf 0 st = st"
| "zeropad_loop buf (Suc j) (data_len, seen) =
     (let i = Suc j;
          x = buf ! (i - 1);
          nz_mask = NOT (flat_mask_is_zero_u8 x);
          nz_bit = ucast ((ucast nz_mask :: u32) AND 1) :: size_t;
          trigger = nz_bit AND NOT seen;
          data_len' = flat_select_sz (ucast trigger) (of_nat i) data_len;
          seen' = seen OR nz_bit
      in zeropad_loop buf j (data_len', seen'))"

definition flat_zeropad_data_len :: "u8 list \<Rightarrow> size_t \<Rightarrow> fault + size_t" where
  "flat_zeropad_data_len buf len =
     (if unat len \<le> length buf then Inr (fst (zeropad_loop buf (unat len) (0, 0)))
      else Inl OutOfBounds)"

section \<open>Hardening helpers\<close>

definition flat_index_clamp :: "size_t \<Rightarrow> size_t \<Rightarrow> size_t" where
  "flat_index_clamp idx len = (let m = flat_mask_lt_sz idx len in idx AND m)"

text \<open>
  The load reads \<open>base[i]\<close> for the clamped index \<open>i\<close>: the length argument enters
  only through the clamp, so the bound check is against the buffer itself. The
  speculation fence has no effect on values.
\<close>

definition flat_masked_load_u8 :: "u8 list \<Rightarrow> size_t \<Rightarrow> size_t \<Rightarrow> fault + u8" where
  "flat_masked_load_u8 base len idx =
     (let i = flat_index_clamp idx len
      in if unat i < length base then Inr (base ! unat i) else Inl OutOfBounds)"

record flat_erracc_t =
  acc :: u32

definition flat_erracc_init :: "flat_erracc_t \<Rightarrow> flat_erracc_t" where
  "flat_erracc_init e = e\<lparr>acc := 0\<rparr>"

definition flat_erracc_or :: "flat_erracc_t \<Rightarrow> unsigned \<Rightarrow> flat_erracc_t" where
  "flat_erracc_or e cond = e\<lparr>acc := acc e OR (cond AND 1)\<rparr>"

definition flat_erracc_ok :: "flat_erracc_t \<Rightarrow> unsigned" where
  "flat_erracc_ok e = flat_mask_is_zero_u32 (acc e) AND 1"

definition flat_commit_if_ok :: "unsigned \<Rightarrow> u8 list \<Rightarrow> u8 list \<Rightarrow> size_t \<Rightarrow> fault + u8 list" where
  "flat_commit_if_ok ok dst tmp n = flat_memcpy_when ok dst tmp n"

section \<open>PKCS#7 unpadding\<close>

text \<open>The loop accumulates \<open>diff\<close> over \<open>i = 0 ..< maxchk\<close>, reading \<open>buf[len - 1 - i]\<close>.\<close>

fun pkcs7_loop :: "u8 list \<Rightarrow> size_t \<Rightarrow> u8 \<Rightarrow> nat \<Rightarrow> u32" where
  "pkcs7_loop buf len pad 0 = 0"
| "pkcs7_loop buf len pad (Suc i) =
     (let diff = pkcs7_loop buf len pad i;
          in_window = ucast (flat_mask_lt_sz (of_nat i) (ucast pad) AND 0xFF) :: u8;
          b = buf ! unat (len - 1 - of_nat i)
      in diff OR ucast ((b XOR pad) AND in_window))"

text \<open>The result is \<open>(ok, data_len_out)\<close>.\<close>

definition flat_pkcs7_unpad_ct :: "u8 list \<Rightarrow> size_t \<Rightarrow> size_t \<Rightarrow> fault + (unsigned \<times> size_t)" where
  "flat_pkcs7_unpad_ct buf len block =
     (if len = 0 \<or> block = 0 then Inr (0, 0)
      else if length buf < unat len then Inl OutOfBounds
      else
        let pad = buf ! unat (len - 1);
            ok1 = (of_bool (1 \<le> (ucast pad :: u32)) AND of_bool (pad \<le> (ucast block :: u8))
                   AND of_bool (pad \<le> (ucast len :: u8))) :: unsigned;
            maxchk = flat_min_sz len block;
            diff = pkcs7_loop buf len pad (unat maxchk);
            ok2 = flat_mask_is_zero_u32 diff AND 1;
            ok = ok1 AND ok2;
            data_len = len - ucast pad
        in Inr (ok, flat_select_sz ok data_len 0))"

text \<open>
  The padding condition in the words of the specification, to compare the code with:
  a buffer of length \<open>n\<close> ends with \<open>k\<close> copies of the byte value \<open>k\<close>, for a \<open>k\<close>
  with \<open>1 \<le> k \<le> block\<close> and \<open>k \<le> n\<close>. A byte value is at most 255.
\<close>

definition pkcs7_padded :: "u8 list \<Rightarrow> nat \<Rightarrow> nat \<Rightarrow> nat \<Rightarrow> bool" where
  "pkcs7_padded buf n block k \<longleftrightarrow>
     1 \<le> k \<and> k \<le> block \<and> k \<le> n \<and> k \<le> 255
     \<and> (\<forall>i<k. buf ! (n - 1 - i) = of_nat k)"

section \<open>Constant-time division\<close>

text \<open>
  The loops run \<open>i\<close> from the top bit down to \<open>0\<close>; the state is \<open>(qv, rv)\<close>. The
  equation for \<open>Suc i\<close> is the iteration that handles bit \<open>i\<close> of \<open>n\<close>.
\<close>

fun div_mod_u64_loop :: "u64 \<Rightarrow> u64 \<Rightarrow> nat \<Rightarrow> u64 \<times> u64 \<Rightarrow> u64 \<times> u64" where
  "div_mod_u64_loop n d 0 st = st"
| "div_mod_u64_loop n d (Suc i) (qv, rv) =
     (let rv1 = push_bit 1 rv OR (drop_bit i n AND 1);
          ge = NOT (flat_mask_lt_u64 rv1 d);
          rv2 = rv1 - (d AND ge);
          qv2 = qv OR (push_bit i 1 AND ge)
      in div_mod_u64_loop n d i (qv2, rv2))"

text \<open>The result is \<open>(ok, q, r)\<close>.\<close>

definition flat_div_mod_ct_u64 :: "u64 \<Rightarrow> u64 \<Rightarrow> unsigned \<times> u64 \<times> u64" where
  "flat_div_mod_ct_u64 n d =
     (case div_mod_u64_loop n d 64 (0, 0) of (qv, rv) \<Rightarrow>
        let ok = ucast (NOT (flat_mask_is_zero_u64 d) AND 1) :: unsigned
        in (ok, flat_select_u64 ok qv 0, flat_select_u64 ok rv 0))"

fun div_mod_u32_loop :: "u32 \<Rightarrow> u32 \<Rightarrow> nat \<Rightarrow> u32 \<times> u32 \<Rightarrow> u32 \<times> u32" where
  "div_mod_u32_loop n d 0 st = st"
| "div_mod_u32_loop n d (Suc i) (qv, rv) =
     (let rv1 = push_bit 1 rv OR (drop_bit i n AND 1);
          ge = NOT (flat_mask_lt_u32 rv1 d);
          rv2 = rv1 - (d AND ge);
          qv2 = qv OR (push_bit i 1 AND ge)
      in div_mod_u32_loop n d i (qv2, rv2))"

definition flat_div_mod_ct_u32 :: "u32 \<Rightarrow> u32 \<Rightarrow> unsigned \<times> u32 \<times> u32" where
  "flat_div_mod_ct_u32 n d =
     (case div_mod_u32_loop n d 32 (0, 0) of (qv, rv) \<Rightarrow>
        let ok = (NOT (flat_mask_is_zero_u32 d) AND 1) :: unsigned
        in (ok, flat_select_u32 ok qv 0, flat_select_u32 ok rv 0))"

section \<open>Facts about words\<close>

lemma low_bit_cases: "(c :: 'a::len word) AND 1 = 0 \<or> c AND 1 = 1"
  by (simp add: and_one_eq mod_2_eq_odd)

lemma two_pow_len: "(2::nat) ^ LENGTH('a::len) = 2 * 2 ^ (LENGTH('a) - 1)"
  by (metis len_gt_0 power_eq_if less_numeral_extra(3))

lemma unat_lt_twice_half:
  fixes w :: "'a::len word"
  shows "unat w < 2 * 2 ^ (LENGTH('a) - 1)"
proof -
  have "unat w < 2 ^ LENGTH('a)" by (rule unsigned_less)
  then show ?thesis by (metis two_pow_len)
qed

lemma top_bit_unat:
  fixes w :: "'a::len word"
  shows "bit w (LENGTH('a) - 1) \<longleftrightarrow> 2 ^ (LENGTH('a) - 1) \<le> unat w"
proof -
  let ?H = "(2::nat) ^ (LENGTH('a) - 1)"
  have lt: "unat w < 2 * ?H" by (rule unat_lt_twice_half)
  have "bit w (LENGTH('a) - 1) \<longleftrightarrow> odd (unat w div ?H)"
  proof -
    have "bit w (LENGTH('a) - 1) = bit (unat w) (LENGTH('a) - 1)"
      by (simp add: bit_unsigned_iff)
    then show ?thesis by (simp add: bit_nat_def)
  qed
  also have "\<dots> \<longleftrightarrow> ?H \<le> unat w"
  proof (cases "?H \<le> unat w")
    case True
    then have "unat w div ?H = 1" using lt
      by (simp add: div_nat_eqI)
    then show ?thesis using True by simp
  next
    case False
    then show ?thesis by simp
  qed
  finally show ?thesis .
qed

text \<open>When the top bits of \<open>a\<close> and \<open>b\<close> agree, the top bit of \<open>a - b\<close> is the borrow.\<close>

lemma top_bit_sub:
  fixes a b :: "'a::len word"
  assumes same: "bit a (LENGTH('a) - 1) = bit b (LENGTH('a) - 1)"
  shows "bit (a - b) (LENGTH('a) - 1) \<longleftrightarrow> a < b"
proof -
  let ?H = "(2::nat) ^ (LENGTH('a) - 1)"
  have la: "unat a < 2 * ?H" and lb: "unat b < 2 * ?H"
    by (rule unat_lt_twice_half)+
  have s: "(?H \<le> unat a) = (?H \<le> unat b)"
    using same by (simp only: top_bit_unat)
  have sub: "unat (a - b) = (if unat b \<le> unat a then unat a - unat b
     else unat a + 2 * ?H - unat b)"
    by (simp only: unat_sub_if' two_pow_len)
  show ?thesis
  proof (cases "a < b")
    case True
    then have "unat a < unat b" by (simp add: word_less_nat_alt)
    then have "?H \<le> unat (a - b)" using s la lb sub by auto
    then show ?thesis using True by (simp only: top_bit_unat)
  next
    case False
    then have "unat b \<le> unat a" by (simp add: word_less_nat_alt)
    then have "\<not> ?H \<le> unat (a - b)" using s la lb sub by auto
    then show ?thesis using False by (simp only: top_bit_unat)
  qed
qed

lemma top_bit_differ:
  fixes a b :: "'a::len word"
  assumes diff: "bit a (LENGTH('a) - 1) \<noteq> bit b (LENGTH('a) - 1)"
  shows "bit b (LENGTH('a) - 1) \<longleftrightarrow> a < b"
proof -
  let ?H = "(2::nat) ^ (LENGTH('a) - 1)"
  have s: "(?H \<le> unat a) \<noteq> (?H \<le> unat b)"
    using diff unfolding top_bit_unat .
  have "(?H \<le> unat b) \<longleftrightarrow> unat a < unat b" using s by auto
  then show ?thesis unfolding top_bit_unat word_less_nat_alt .
qed

lemma lt_sign_bit:
  fixes a b :: "'a::len word"
  shows "bit (a XOR ((a XOR b) OR ((a - b) XOR b))) (LENGTH('a) - 1) \<longleftrightarrow> a < b"
proof (cases "bit a (LENGTH('a) - 1) = bit b (LENGTH('a) - 1)")
  case True
  then show ?thesis using top_bit_sub [OF True]
    by (auto simp add: bit_xor_iff bit_or_iff)
next
  case False
  then show ?thesis using top_bit_differ [OF False]
    by (auto simp add: bit_xor_iff bit_or_iff)
qed

lemma drop_top_bit:
  fixes w :: "'a::len word"
  shows "drop_bit (LENGTH('a) - 1) w = (if bit w (LENGTH('a) - 1) then 1 else 0)"
proof (rule bit_eqI)
  fix n
  show "bit (drop_bit (LENGTH('a) - 1) w) n
      = bit (if bit w (LENGTH('a) - 1) then 1 else 0 :: 'a word) n"
  proof (cases n)
    case 0
    then show ?thesis by (simp add: bit_drop_bit_eq)
  next
    case (Suc m)
    have "\<not> bit w (LENGTH('a) - 1 + Suc m)"
      using bit_imp_le_length [of w "LENGTH('a) - 1 + Suc m"] by auto
    then show ?thesis using Suc by (simp add: bit_drop_bit_eq bit_1_iff)
  qed
qed

lemma lt_top_bit_word:
  fixes a b :: "'a::len word"
  shows "drop_bit (LENGTH('a) - 1) (a XOR ((a XOR b) OR ((a - b) XOR b)))
    = (if a < b then 1 else 0)"
  by (simp only: drop_top_bit lt_sign_bit)

lemma is_zero_sign_bit:
  fixes x :: "'a::len word"
  shows "bit (x OR (0 - x)) (LENGTH('a) - 1) \<longleftrightarrow> x \<noteq> 0"
proof (cases "x = 0")
  case True
  then show ?thesis by simp
next
  case False
  let ?H = "(2::nat) ^ (LENGTH('a) - 1)"
  have lx: "unat x < 2 * ?H" by (rule unat_lt_twice_half)
  have pos: "0 < unat x" using False by (simp add: unat_gt_0)
  have neg: "unat (0 - x) = 2 * ?H - unat x"
    using pos by (simp only: unat_sub_if' two_pow_len) simp
  have "?H \<le> unat x \<or> ?H \<le> unat (0 - x)" using lx neg by arith
  then have "bit x (LENGTH('a) - 1) \<or> bit (0 - x) (LENGTH('a) - 1)"
    unfolding top_bit_unat .
  then show ?thesis using False by (simp add: bit_or_iff)
qed

lemma is_zero_top_bit_word:
  fixes x :: "'a::len word"
  shows "drop_bit (LENGTH('a) - 1) (x OR (0 - x)) = (if x = 0 then 0 else 1)"
  by (simp only: drop_top_bit is_zero_sign_bit) simp

text \<open>A cast to a narrower type commutes with subtraction.\<close>

lemma ucast_down_diff:
  fixes x y :: "'a::len word"
  assumes "LENGTH('b::len) \<le> LENGTH('a)"
  shows "(ucast (x - y) :: 'b word) = ucast x - ucast y"
proof -
  have "(ucast (x - y) :: 'b word) = word_of_int (take_bit LENGTH('a) (uint x - uint y))"
    by (simp only: ucast_eq uint_word_arith_bintrs)
  also have "\<dots> = word_of_int (uint x - uint y)"
    using assms by (rule wi_bintr)
  also have "\<dots> = ucast x - ucast y"
    by (simp only: ucast_eq wi_hom_sub)
  finally show ?thesis .
qed

lemma ucast_u32_neg_u8: "(ucast (0 - (ucast x :: u32)) :: u8) = 0 - x"
proof -
  have "(ucast (0 - (ucast x :: u32)) :: u8) = ucast (0 :: u32) - ucast (ucast x :: u32)"
    by (rule ucast_down_diff) simp
  also have "\<dots> = 0 - x"
    by (simp add: ucast_up_ucast_id is_up)
  finally show ?thesis .
qed

lemma ucast_ones_down:
  "LENGTH('b::len) \<le> LENGTH('a::len) \<Longrightarrow> (ucast (- 1 :: 'a word) :: 'b word) = - 1"
  by (rule bit_eqI) (auto simp add: bit_simps dest: bit_imp_le_length)

lemma xor_eq_0_word: "a XOR b = 0 \<longleftrightarrow> a = (b :: 'a::len word)"
proof
  assume z: "a XOR b = 0"
  have "b = a XOR (a XOR b)" by (simp only: bit.xor_left_self)
  then show "a = b" using z by simp
next
  assume "a = b"
  then show "a XOR b = 0" by simp
qed

lemma is_zero_top8: "drop_bit 7 (x OR (0 - x)) = (if x = 0 then 0 else 1)" for x :: u8
  using is_zero_top_bit_word [of x] by simp

lemma lt_top8:
  "drop_bit 7 (a XOR ((a XOR b) OR ((a - b) XOR b))) = (if a < b then 1 else 0)"
  for a b :: u8
  using lt_top_bit_word [of a b] by simp

lemma lt_top16:
  "drop_bit 15 (a XOR ((a XOR b) OR ((a - b) XOR b))) = (if a < b then 1 else 0)"
  for a b :: u16
  using lt_top_bit_word [of a b] by simp

subsection \<open>What the mask primitives compute\<close>

lemma mask_from_bit_u8_eq: "flat_mask_from_bit_u8 c = (if c AND 1 = 1 then - 1 else 0)"
  using low_bit_cases [of c] by (auto simp add: flat_mask_from_bit_u8_def)

lemma mask_from_bit_u16_eq: "flat_mask_from_bit_u16 c = (if c AND 1 = 1 then - 1 else 0)"
  using low_bit_cases [of c] by (auto simp add: flat_mask_from_bit_u16_def)

lemma mask_from_bit_u32_eq: "flat_mask_from_bit_u32 c = (if c AND 1 = 1 then - 1 else 0)"
  using low_bit_cases [of c] by (auto simp add: flat_mask_from_bit_u32_def)

lemma mask_from_bit_u64_eq: "flat_mask_from_bit_u64 c = (if c AND 1 = 1 then - 1 else 0)"
  using low_bit_cases [of c] by (auto simp add: flat_mask_from_bit_u64_def)

lemma mask_from_bit_sz_eq: "flat_mask_from_bit_sz c = (if c AND 1 = 1 then - 1 else 0)"
  using low_bit_cases [of c] by (auto simp add: flat_mask_from_bit_sz_def)

lemma mask_is_zero_u8_eq: "flat_mask_is_zero_u8 x = (if x = 0 then - 1 else 0)"
  by (simp only: flat_mask_is_zero_u8_def ucast_u32_neg_u8 is_zero_top8)
     (simp add: ucast_ones_down)

lemma mask_is_zero_u32_eq: "flat_mask_is_zero_u32 x = (if x = 0 then - 1 else 0)"
  using is_zero_top_bit_word [of x] by (simp add: flat_mask_is_zero_u32_def)

lemma mask_is_zero_u64_eq: "flat_mask_is_zero_u64 x = (if x = 0 then - 1 else 0)"
  using is_zero_top_bit_word [of x] by (simp add: flat_mask_is_zero_u64_def)

lemma mask_is_zero_sz_eq: "flat_mask_is_zero_sz x = (if x = 0 then - 1 else 0)"
  using is_zero_top_bit_word [of x] by (simp add: flat_mask_is_zero_sz_def)

lemma mask_eq_u32_eq: "flat_mask_eq_u32 a b = (if a = b then - 1 else 0)"
  by (simp add: flat_mask_eq_u32_def mask_is_zero_u32_eq xor_eq_0_word)

lemma mask_eq_sz_eq: "flat_mask_eq_sz a b = (if a = b then - 1 else 0)"
  by (simp add: flat_mask_eq_sz_def mask_is_zero_sz_eq xor_eq_0_word)

lemma mask_lt_u8_eq: "flat_mask_lt_u8 a b = (if a < b then - 1 else 0)"
  by (simp only: flat_mask_lt_u8_def lt_top8 Let_def) (simp add: ucast_ones_down)

lemma mask_lt_u16_eq: "flat_mask_lt_u16 a b = (if a < b then - 1 else 0)"
  by (simp only: flat_mask_lt_u16_def lt_top16 Let_def) (simp add: ucast_ones_down)

lemma mask_lt_u32_eq: "flat_mask_lt_u32 a b = (if a < b then - 1 else 0)"
  using lt_top_bit_word [of a b] by (simp add: flat_mask_lt_u32_def)

lemma mask_lt_u64_eq: "flat_mask_lt_u64 a b = (if a < b then - 1 else 0)"
  using lt_top_bit_word [of a b] by (simp add: flat_mask_lt_u64_def)

lemma mask_lt_sz_eq: "flat_mask_lt_sz a b = (if a < b then - 1 else 0)"
  using lt_top_bit_word [of a b] by (simp add: flat_mask_lt_sz_def)

lemma select_u8_eq: "flat_select_u8 c x y = (if c AND 1 = 1 then x else y)"
  by (simp add: flat_select_u8_def flat_select_u8_mask_def mask_from_bit_u8_eq)

lemma select_u16_eq: "flat_select_u16 c x y = (if c AND 1 = 1 then x else y)"
  by (simp add: flat_select_u16_def flat_select_u16_mask_def mask_from_bit_u16_eq)

lemma select_u32_eq: "flat_select_u32 c x y = (if c AND 1 = 1 then x else y)"
  by (simp add: flat_select_u32_def flat_select_u32_mask_def mask_from_bit_u32_eq)

lemma select_u64_eq: "flat_select_u64 c x y = (if c AND 1 = 1 then x else y)"
  by (simp add: flat_select_u64_def flat_select_u64_mask_def mask_from_bit_u64_eq)

lemma select_sz_eq: "flat_select_sz c x y = (if c AND 1 = 1 then x else y)"
  by (simp add: flat_select_sz_def flat_select_sz_mask_def mask_from_bit_sz_eq)

lemma min_sz_eq: "flat_min_sz a b = min a b"
  by (auto simp add: flat_min_sz_def mask_lt_sz_eq min_def xor.left_commute)


section \<open>Claims about the mask algebra\<close>

text \<open>
  Claim C6. For unsigned words \<open>a\<close>, \<open>b\<close> of each supported width (8, 16, 32, 64 bits
  and \<^verbatim>\<open>size_t\<close>), \<open>flat_mask_lt\<close> returns either \<open>0\<close> or the all-ones word
  \<open>- 1\<close> of that width, never a partial mask, and its low bit is \<open>1\<close> exactly when
  \<open>a < b\<close> as unsigned integers and \<open>0\<close> otherwise. For 32 bits the low bit is read
  with \<open>flat_mask_to_bit_u32\<close>, for the other widths with \<open>AND 1\<close>.
\<close>

theorem mask_lt_all_or_nothing:
  "(flat_mask_lt_u8 a8 b8 = 0 \<or> flat_mask_lt_u8 a8 b8 = - 1)
   \<and> flat_mask_lt_u8 a8 b8 AND 1 = (if a8 < b8 then 1 else 0)
   \<and> (flat_mask_lt_u16 a16 b16 = 0 \<or> flat_mask_lt_u16 a16 b16 = - 1)
   \<and> flat_mask_lt_u16 a16 b16 AND 1 = (if a16 < b16 then 1 else 0)
   \<and> (flat_mask_lt_u32 a32 b32 = 0 \<or> flat_mask_lt_u32 a32 b32 = - 1)
   \<and> flat_mask_to_bit_u32 (flat_mask_lt_u32 a32 b32) = (if a32 < b32 then 1 else 0)
   \<and> (flat_mask_lt_u64 a64 b64 = 0 \<or> flat_mask_lt_u64 a64 b64 = - 1)
   \<and> flat_mask_lt_u64 a64 b64 AND 1 = (if a64 < b64 then 1 else 0)
   \<and> (flat_mask_lt_sz asz bsz = 0 \<or> flat_mask_lt_sz asz bsz = - 1)
   \<and> flat_mask_lt_sz asz bsz AND 1 = (if asz < bsz then 1 else 0)"
  by (simp add: mask_lt_u8_eq mask_lt_u16_eq mask_lt_u32_eq mask_lt_u64_eq mask_lt_sz_eq
      flat_mask_to_bit_u32_def)

theorem mask_lt_all_or_nothing_witness:
  "(flat_mask_lt_u8 3 200 = 0 \<or> flat_mask_lt_u8 3 200 = - 1)
   \<and> flat_mask_lt_u8 3 200 AND 1 = 1
   \<and> flat_mask_lt_u16 65535 65535 AND 1 = 0
   \<and> flat_mask_to_bit_u32 (flat_mask_lt_u32 2147483648 1) = 0
   \<and> flat_mask_lt_u64 9223372036854775807 9223372036854775808 AND 1 = 1
   \<and> flat_mask_lt_sz 7 7 AND 1 = 0"
  using mask_lt_all_or_nothing [of 3 200 65535 65535 2147483648 1
      9223372036854775807 9223372036854775808 7 7]
  by simp

text \<open>
  Claim C5. For every value of \<open>cond\<close> (all 32-bit patterns, not only 0 and 1) and
  all words \<open>x\<close>, \<open>y\<close> of each supported width, \<open>flat_select\<close> returns \<open>x\<close> when
  the low bit of \<open>cond\<close> is 1 and \<open>y\<close> when it is 0; the other bits of \<open>cond\<close>
  never alter the result, that is, \<open>cond\<close> and \<open>cond AND 1\<close> select the same value.
\<close>

theorem select_by_low_bit:
  "flat_select_u8 cond x8 y8 = (if cond AND 1 = 1 then x8 else y8)
   \<and> flat_select_u16 cond x16 y16 = (if cond AND 1 = 1 then x16 else y16)
   \<and> flat_select_u32 cond x32 y32 = (if cond AND 1 = 1 then x32 else y32)
   \<and> flat_select_u64 cond x64 y64 = (if cond AND 1 = 1 then x64 else y64)
   \<and> flat_select_sz cond xsz ysz = (if cond AND 1 = 1 then xsz else ysz)
   \<and> flat_select_u8 cond x8 y8 = flat_select_u8 (cond AND 1) x8 y8
   \<and> flat_select_u16 cond x16 y16 = flat_select_u16 (cond AND 1) x16 y16
   \<and> flat_select_u32 cond x32 y32 = flat_select_u32 (cond AND 1) x32 y32
   \<and> flat_select_u64 cond x64 y64 = flat_select_u64 (cond AND 1) x64 y64
   \<and> flat_select_sz cond xsz ysz = flat_select_sz (cond AND 1) xsz ysz"
  by (simp add: select_u8_eq select_u16_eq select_u32_eq select_u64_eq select_sz_eq
      and.assoc)

theorem select_by_low_bit_witness:
  "flat_select_u8 4294967295 10 20 = 10 \<and> flat_select_u8 4294967294 10 20 = 20
   \<and> flat_select_u16 7 300 400 = 300 \<and> flat_select_u16 6 300 400 = 400
   \<and> flat_select_u32 7 70000 5 = 70000 \<and> flat_select_u32 6 70000 5 = 5
   \<and> flat_select_u64 7 1 2 = 1 \<and> flat_select_u64 6 1 2 = 2
   \<and> flat_select_sz 7 1 2 = 1 \<and> flat_select_sz 6 1 2 = 2"
  using select_by_low_bit [of 4294967295 10 20 300 400 70000 5 1 2 1 2]
    select_by_low_bit [of 4294967294 10 20 300 400 70000 5 1 2 1 2]
    select_by_low_bit [of 7 10 20 300 400 70000 5 1 2 1 2]
    select_by_low_bit [of 6 10 20 300 400 70000 5 1 2 1 2]
  by simp

section \<open>Claims about the conditional copy\<close>

lemma memcpy_when_loop_ones:
  "i \<le> length dst \<Longrightarrow> i \<le> length src \<Longrightarrow>
   memcpy_when_loop (- 1) dst src i = take i src @ drop i dst"
proof (induction i)
  case 0
  then show ?case by simp
next
  case (Suc i)
  then have ih: "memcpy_when_loop (- 1) dst src i = take i src @ drop i dst" by simp
  have "(take i src @ drop i dst)[i := src ! i] = take (Suc i) src @ drop (Suc i) dst"
    using Suc.prems
    by (simp add: list_update_append take_Suc_conv_app_nth upd_conv_take_nth_drop drop_Suc)
  then show ?case using ih by (simp add: Let_def)
qed

lemma memcpy_when_loop_zero:
  "memcpy_when_loop 0 dst src i = dst"
  by (induction i) (simp_all add: Let_def)

text \<open>
  Claim C7. For a destination \<open>dst\<close> and a source \<open>src\<close> of length \<open>n\<close>,
  \<open>flat_memcpy_when 1\<close> makes the destination equal to \<open>src\<close> byte for byte and
  \<open>flat_memcpy_when 0\<close> leaves every byte of the destination as it was; hence
  \<open>flat_commit_if_ok\<close> copies \<open>tmp\<close> into \<open>dst\<close> when \<open>ok = 1\<close> and leaves \<open>dst\<close>
  unchanged when \<open>ok = 0\<close>.
\<close>

theorem memcpy_when_copies_or_keeps:
  assumes "length dst = unat n" and "length src = unat n"
  shows "flat_memcpy_when 1 dst src n = Inr src
       \<and> flat_memcpy_when 0 dst src n = Inr dst
       \<and> flat_commit_if_ok 1 dst src n = Inr src
       \<and> flat_commit_if_ok 0 dst src n = Inr dst"
  using assms
  by (simp add: flat_commit_if_ok_def flat_memcpy_when_def mask_from_bit_u8_eq
      memcpy_when_loop_ones memcpy_when_loop_zero)

theorem memcpy_when_copies_or_keeps_witness:
  "length [1, 1, 1 :: u8] = unat (3 :: size_t) \<and> length [7, 8, 9 :: u8] = unat (3 :: size_t)
   \<and> flat_memcpy_when 1 [1, 1, 1] [7, 8, 9] 3 = Inr [7, 8, 9]
   \<and> flat_memcpy_when 0 [1, 1, 1] [7, 8, 9] 3 = Inr [1, 1, 1]
   \<and> flat_commit_if_ok 1 [1, 1, 1] [7, 8, 9] 3 = Inr [7, 8, 9]
   \<and> flat_commit_if_ok 0 [1, 1, 1] [7, 8, 9] 3 = Inr [1, 1, 1]"
  using memcpy_when_copies_or_keeps [of "[1, 1, 1]" 3 "[7, 8, 9]"]
  by simp

section \<open>Claims about the scanning lookup\<close>

lemma of_nat_eq_sz_iff:
  "k < 2 ^ 64 \<Longrightarrow> ((of_nat k :: size_t) = idx) = (k = unat idx)"
proof
  assume "k < 2 ^ 64" and "(of_nat k :: size_t) = idx"
  then show "k = unat idx" by (auto simp add: unat_of_nat)
next
  assume "k = unat idx"
  then show "(of_nat k :: size_t) = idx" by simp
qed

lemma scan_mask_sz:
  "k < 2 ^ 64 \<Longrightarrow> flat_mask_eq_sz (of_nat k) idx = (if k = unat idx then - 1 else 0)"
  by (simp add: mask_eq_sz_eq of_nat_eq_sz_iff)

lemma lookup_u8_loop_eq:
  "k \<le> 2 ^ 64 \<Longrightarrow> lookup_u8_loop arr idx k = (if unat idx < k then arr ! unat idx else 0)"
proof (induction k)
  case 0
  then show ?case by simp
next
  case (Suc k)
  then have k: "k < 2 ^ 64" by simp
  show ?case using Suc k
    by (auto simp add: Let_def scan_mask_sz ucast_ones_down less_Suc_eq)
qed

lemma lookup_u16_loop_eq:
  "k \<le> 2 ^ 64 \<Longrightarrow> lookup_u16_loop arr idx k = (if unat idx < k then arr ! unat idx else 0)"
proof (induction k)
  case 0
  then show ?case by simp
next
  case (Suc k)
  then have k: "k < 2 ^ 64" by simp
  show ?case using Suc k
    by (auto simp add: Let_def scan_mask_sz ucast_ones_down less_Suc_eq)
qed

lemma lookup_u32_loop_eq:
  "k \<le> 2 ^ 64 \<Longrightarrow> lookup_u32_loop arr idx k = (if unat idx < k then arr ! unat idx else 0)"
proof (induction k)
  case 0
  then show ?case by simp
next
  case (Suc k)
  then have k: "k < 2 ^ 64" by simp
  show ?case using Suc k
    by (auto simp add: Let_def scan_mask_sz ucast_ones_down less_Suc_eq)
qed

lemma lookup_u64_loop_eq:
  "k \<le> 2 ^ 64 \<Longrightarrow> lookup_u64_loop arr idx k = (if unat idx < k then arr ! unat idx else 0)"
proof (induction k)
  case 0
  then show ?case by simp
next
  case (Suc k)
  then have k: "k < 2 ^ 64" by simp
  show ?case using Suc k
    by (auto simp add: Let_def scan_mask_sz less_Suc_eq)
qed

lemma unat_sz_le: "unat (len :: size_t) \<le> 2 ^ 64"
  using unsigned_less [of len, where ?'a = nat] by simp

text \<open>
  Claim C8. For an array \<open>arr\<close> of length \<open>len\<close> and every index \<open>idx\<close>,
  \<open>flat_lookup\<close> returns \<open>arr[idx]\<close> when \<open>idx < len\<close> and returns \<open>0\<close> for every
  out-of-range index (\<open>idx \<ge> len\<close>), for each element width 8, 16, 32 and 64.
\<close>

theorem lookup_in_range_or_zero:
  "(length arr8 = unat len \<longrightarrow>
      flat_lookup_u8 arr8 len idx = Inr (if idx < len then arr8 ! unat idx else 0))
   \<and> (length arr16 = unat len \<longrightarrow>
      flat_lookup_u16 arr16 len idx = Inr (if idx < len then arr16 ! unat idx else 0))
   \<and> (length arr32 = unat len \<longrightarrow>
      flat_lookup_u32 arr32 len idx = Inr (if idx < len then arr32 ! unat idx else 0))
   \<and> (length arr64 = unat len \<longrightarrow>
      flat_lookup_u64 arr64 len idx = Inr (if idx < len then arr64 ! unat idx else 0))"
  by (simp add: flat_lookup_u8_def flat_lookup_u16_def flat_lookup_u32_def flat_lookup_u64_def
      lookup_u8_loop_eq [OF unat_sz_le] lookup_u16_loop_eq [OF unat_sz_le]
      lookup_u32_loop_eq [OF unat_sz_le] lookup_u64_loop_eq [OF unat_sz_le]
      word_less_nat_alt)

theorem lookup_in_range_or_zero_witness:
  "length [10, 20, 30 :: u8] = unat (3 :: size_t)
   \<and> flat_lookup_u8 [10, 20, 30] 3 2 = Inr 30
   \<and> flat_lookup_u16 [10, 20, 30] 3 2 = Inr 30
   \<and> flat_lookup_u32 [10, 20, 30] 3 2 = Inr 30
   \<and> flat_lookup_u64 [10, 20, 30] 3 2 = Inr 30
   \<and> flat_lookup_u8 [10, 20, 30] 3 3 = Inr 0
   \<and> flat_lookup_u16 [10, 20, 30] 3 18446744073709551615 = Inr 0
   \<and> flat_lookup_u32 [10, 20, 30] 3 4294967296 = Inr 0
   \<and> flat_lookup_u64 [10, 20, 30] 3 3 = Inr 0"
  using lookup_in_range_or_zero [of "[10, 20, 30]" 3 2 "[10, 20, 30]" "[10, 20, 30]" "[10, 20, 30]"]
    lookup_in_range_or_zero [of "[10, 20, 30]" 3 3 "[10, 20, 30]" "[10, 20, 30]" "[10, 20, 30]"]
    lookup_in_range_or_zero [of "[10, 20, 30]" 3 18446744073709551615 "[10, 20, 30]" "[10, 20, 30]" "[10, 20, 30]"]
    lookup_in_range_or_zero [of "[10, 20, 30]" 3 4294967296 "[10, 20, 30]" "[10, 20, 30]" "[10, 20, 30]"]
  by simp

section \<open>Claims about the zero-padding scan\<close>

lemma ucast_ones_u8_u32: "(ucast (- 1 :: u8) :: u32) = 255"
  by (simp add: unsigned_minus_1_eq_mask mask_eq_exp_minus_1)

lemma nz_bit_eq:
  "(ucast ((ucast (NOT (flat_mask_is_zero_u8 x)) :: u32) AND 1) :: size_t) = (if x = 0 then 0 else 1)"
  by (simp add: mask_is_zero_u8_eq ucast_ones_u8_u32)

lemma zeropad_loop_sticky:
  "fst (zeropad_loop buf k (dl, 1)) = dl"
proof (induction k arbitrary: dl)
  case 0
  then show ?case by simp
next
  case (Suc k)
  show ?case
    by (simp only: zeropad_loop.simps Let_def nz_bit_eq) (simp add: select_sz_eq Suc)
qed

lemma Max_nonzero_Suc_hit:
  assumes "buf ! k \<noteq> (0 :: u8)"
  shows "Max {j. j < Suc k \<and> buf ! j \<noteq> 0} = k"
  using assms by (intro Max_eqI) auto

lemma nonzero_set_Suc_miss:
  assumes "buf ! k = (0 :: u8)"
  shows "{j. j < Suc k \<and> buf ! j \<noteq> 0} = {j. j < k \<and> buf ! j \<noteq> 0}"
  using assms by (auto simp add: less_Suc_eq)

lemma zeropad_loop_fresh:
  "k < 2 ^ 64 \<Longrightarrow>
   fst (zeropad_loop buf k (dl, 0)) =
     (if \<forall>j<k. buf ! j = 0 then dl else of_nat (Suc (Max {j. j < k \<and> buf ! j \<noteq> 0})))"
proof (induction k arbitrary: dl)
  case 0
  then show ?case by simp
next
  case (Suc k)
  then have k: "k < 2 ^ 64" by simp
  show ?case
  proof (cases "buf ! k = 0")
    case True
    have "fst (zeropad_loop buf (Suc k) (dl, 0)) = fst (zeropad_loop buf k (dl, 0))"
      using True by (simp only: zeropad_loop.simps Let_def nz_bit_eq) (simp add: select_sz_eq)
    also have "\<dots> = (if \<forall>j<k. buf ! j = 0 then dl
        else of_nat (Suc (Max {j. j < k \<and> buf ! j \<noteq> 0})))"
      using Suc.IH [OF k] .
    also have "\<dots> = (if \<forall>j<Suc k. buf ! j = 0 then dl
        else of_nat (Suc (Max {j. j < Suc k \<and> buf ! j \<noteq> 0})))"
      using True by (simp only: nonzero_set_Suc_miss [OF True]) (auto simp add: less_Suc_eq)
    finally show ?thesis .
  next
    case False
    have "fst (zeropad_loop buf (Suc k) (dl, 0)) = fst (zeropad_loop buf k (of_nat (Suc k), 1))"
      using False by (simp only: zeropad_loop.simps Let_def nz_bit_eq) (simp add: select_sz_eq)
    also have "\<dots> = of_nat (Suc k)" by (rule zeropad_loop_sticky)
    also have "\<dots> = (if \<forall>j<Suc k. buf ! j = 0 then dl
        else of_nat (Suc (Max {j. j < Suc k \<and> buf ! j \<noteq> 0})))"
      using False by (simp only: Max_nonzero_Suc_hit [OF False]) auto
    finally show ?thesis .
  qed
qed

lemma unat_sz_lt: "unat (len :: size_t) < 2 ^ 64"
  using unsigned_less [of len, where ?'a = nat] by simp

lemma Max_nonzero_bound:
  assumes "\<not> (\<forall>i<n. buf ! i = (0 :: u8))"
  shows "Max {i. i < n \<and> buf ! i \<noteq> 0} < n"
proof -
  have "Max {i. i < n \<and> buf ! i \<noteq> 0} \<in> {i. i < n \<and> buf ! i \<noteq> 0}"
    using assms by (intro Max_in) auto
  then show ?thesis by simp
qed

text \<open>
  Claim C9. For a byte buffer \<open>buf\<close> of length \<open>n\<close>, \<open>flat_zeropad_data_len\<close>
  returns 1 plus the largest index \<open>i\<close> with \<open>buf[i] \<noteq> 0\<close>, and returns \<open>0\<close> when
  every byte is zero (in particular when \<open>n = 0\<close>). The second conjunct says that
  the number is at most \<open>n\<close>, so its conversion to \<^verbatim>\<open>size_t\<close> does not wrap.
\<close>

theorem zeropad_data_len_last_nonzero:
  assumes "length buf = unat len"
  shows "flat_zeropad_data_len buf len =
           Inr (of_nat (if \<forall>i<unat len. buf ! i = 0 then 0
                        else 1 + Max {i. i < unat len \<and> buf ! i \<noteq> 0}))
       \<and> (if \<forall>i<unat len. buf ! i = 0 then 0
           else 1 + Max {i. i < unat len \<and> buf ! i \<noteq> 0}) \<le> unat len"
proof
  show "flat_zeropad_data_len buf len =
           Inr (of_nat (if \<forall>i<unat len. buf ! i = 0 then 0
                        else 1 + Max {i. i < unat len \<and> buf ! i \<noteq> 0}))"
    using assms by (auto simp add: flat_zeropad_data_len_def zeropad_loop_fresh [OF unat_sz_lt])
  show "(if \<forall>i<unat len. buf ! i = 0 then 0
           else 1 + Max {i. i < unat len \<and> buf ! i \<noteq> 0}) \<le> unat len"
  proof (cases "\<forall>i<unat len. buf ! i = 0")
    case True
    then show ?thesis by simp
  next
    case False
    have "Max {i. i < unat len \<and> buf ! i \<noteq> 0} < unat len"
      by (rule Max_nonzero_bound [OF False])
    then have "1 + Max {i. i < unat len \<and> buf ! i \<noteq> 0} \<le> unat len"
      by linarith
    then show ?thesis using False by (simp only: if_False)
  qed
qed



theorem zeropad_data_len_last_nonzero_witness:
  "length [0, 5, 0 :: u8] = unat (3 :: size_t)
   \<and> flat_zeropad_data_len [0, 5, 0] 3 = Inr 2
   \<and> length [0, 0 :: u8] = unat (2 :: size_t)
   \<and> flat_zeropad_data_len [0, 0] 2 = Inr 0
   \<and> flat_zeropad_data_len [] 0 = Inr 0"
proof -
  have l3: "length [0, 5, 0 :: u8] = unat (3 :: size_t)" by simp
  have l2: "length [0, 0 :: u8] = unat (2 :: size_t)" by simp
  have u3: "unat (3 :: size_t) = 3" and u2: "unat (2 :: size_t) = 2" by simp_all
  have s: "{i. i < 3 \<and> [0, 5, 0 :: u8] ! i \<noteq> 0} = {1}"
    by (auto simp add: numeral_3_eq_3 less_Suc_eq)
  have nz: "(\<forall>i<3. [0, 5, 0 :: u8] ! i = 0) = False"
    by (auto intro: exI [of _ 1])
  have z: "(\<forall>i<2. [0, 0 :: u8] ! i = 0) = True"
    by (auto simp add: numeral_2_eq_2 less_Suc_eq)
  have a: "flat_zeropad_data_len [0, 5, 0] 3 = Inr 2"
    using zeropad_data_len_last_nonzero [OF l3, unfolded u3 s nz, THEN conjunct1] by simp
  have b: "flat_zeropad_data_len [0, 0] 2 = Inr 0"
    using zeropad_data_len_last_nonzero [OF l2, unfolded u2 z, THEN conjunct1] by simp
  have c: "flat_zeropad_data_len [] 0 = Inr 0"
    using zeropad_data_len_last_nonzero [of "[]" 0, THEN conjunct1] by simp
  show ?thesis using l3 l2 a b c by (intro conjI)
qed

section \<open>Claims about the index clamp\<close>

lemma index_clamp_eq: "flat_index_clamp idx len = (if idx < len then idx else 0)"
  by (simp add: flat_index_clamp_def mask_lt_sz_eq)

text \<open>
  Claim C10. For every \<open>len > 0\<close> and every \<open>idx\<close>, \<open>flat_index_clamp\<close> returns
  \<open>idx\<close> itself when \<open>idx < len\<close> and \<open>0\<close> when \<open>idx \<ge> len\<close>, so its result is
  strictly less than \<open>len\<close>. When \<open>len = 0\<close> it returns \<open>0\<close> for every \<open>idx\<close>, so
  \<open>flat_masked_load_u8\<close> with length \<open>0\<close> still reads position \<open>0\<close>: on an empty
  buffer that read is out of bounds, and on any other buffer it returns the first
  byte. The load is in bounds when \<open>len > 0\<close> is the length of the buffer.
\<close>

theorem index_clamp_in_bounds_iff_nonempty:
  "(0 < len \<longrightarrow>
      flat_index_clamp idx len = (if idx < len then idx else 0)
      \<and> flat_index_clamp idx len < len)
   \<and> flat_index_clamp idx 0 = 0
   \<and> flat_masked_load_u8 [] 0 idx = Inl OutOfBounds
   \<and> (base \<noteq> [] \<longrightarrow> flat_masked_load_u8 base 0 idx = Inr (base ! 0))
   \<and> (0 < len \<and> length base = unat len \<longrightarrow>
      flat_masked_load_u8 base len idx = Inr (base ! (if idx < len then unat idx else 0)))"
  by (auto simp add: index_clamp_eq flat_masked_load_u8_def word_less_nat_alt)

theorem index_clamp_in_bounds_iff_nonempty_witness:
  "(0 :: size_t) < 16
   \<and> flat_index_clamp 5 16 = 5 \<and> flat_index_clamp 20 16 = 0
   \<and> flat_index_clamp 20 0 = 0
   \<and> flat_masked_load_u8 [] 0 20 = Inl OutOfBounds
   \<and> flat_masked_load_u8 [7, 8] 0 1 = Inr 7
   \<and> flat_masked_load_u8 [7, 8] 2 1 = Inr 8
   \<and> flat_masked_load_u8 [7, 8] 2 2 = Inr 7"
  using index_clamp_in_bounds_iff_nonempty [of 16 5 "[7, 8]"]
    index_clamp_in_bounds_iff_nonempty [of 16 20 "[7, 8]"]
    index_clamp_in_bounds_iff_nonempty [of 2 1 "[7, 8]"]
    index_clamp_in_bounds_iff_nonempty [of 2 2 "[7, 8]"]
  by simp

section \<open>Claims about the error accumulator\<close>

lemma erracc_fold_acc:
  "acc e = 0 \<or> acc e = 1 \<Longrightarrow>
   acc (foldl flat_erracc_or e cs) =
     (if acc e = 1 \<or> (\<exists>c\<in>set cs. c AND 1 = 1) then 1 else 0)"
proof (induction cs arbitrary: e)
  case Nil
  then show ?case by auto
next
  case (Cons c cs)
  have step: "acc (flat_erracc_or e c) = (if acc e = 1 \<or> c AND 1 = 1 then 1 else 0)"
    using Cons.prems low_bit_cases [of c] by (auto simp add: flat_erracc_or_def)
  then have "acc (flat_erracc_or e c) = 0 \<or> acc (flat_erracc_or e c) = 1" by simp
  from Cons.IH [OF this] show ?case by (simp add: step)
qed

text \<open>
  Claim C4, as amended. After \<open>flat_erracc_init\<close>, feeding the conditions
  \<open>c\<^sub>1, \<dots>, c\<^sub>k\<close> through \<open>flat_erracc_or\<close> makes \<open>flat_erracc_ok\<close> return \<open>1\<close> if
  and only if every \<open>c\<^sub>i\<close> has its low bit clear; otherwise it returns \<open>0\<close>. Only the
  low bit of a condition is accumulated.
\<close>

theorem erracc_ok_iff_low_bits_clear:
  "flat_erracc_ok (foldl flat_erracc_or (flat_erracc_init e) cs) =
     (if \<forall>c\<in>set cs. c AND 1 = 0 then 1 else 0)"
proof -
  have "acc (flat_erracc_init e) = 0" by (simp add: flat_erracc_init_def)
  then have "acc (foldl flat_erracc_or (flat_erracc_init e) cs) =
      (if \<exists>c\<in>set cs. c AND 1 = 1 then 1 else 0)"
    using erracc_fold_acc [of "flat_erracc_init e" cs] by simp
  moreover have "(\<exists>c\<in>set cs. c AND 1 = 1) \<longleftrightarrow> \<not> (\<forall>c\<in>set cs. c AND 1 = 0)"
    using low_bit_cases by (metis zero_neq_one)
  ultimately show ?thesis by (simp add: flat_erracc_ok_def mask_is_zero_u32_eq)
qed

theorem erracc_ok_iff_low_bits_clear_witness:
  "flat_erracc_ok (foldl flat_erracc_or (flat_erracc_init \<lparr>acc = 77\<rparr>) [0, 2, 4]) = 1
   \<and> flat_erracc_ok (foldl flat_erracc_or (flat_erracc_init \<lparr>acc = 77\<rparr>) [0, 3, 0]) = 0"
  using erracc_ok_iff_low_bits_clear [of "\<lparr>acc = 77\<rparr>" "[0, 2, 4]"]
    erracc_ok_iff_low_bits_clear [of "\<lparr>acc = 77\<rparr>" "[0, 3, 0]"]
  by simp

text \<open>
  Claim C4 as stated fails: the nonzero condition \<open>2\<close> is not accumulated, and the
  accumulator still reports success.
\<close>

theorem erracc_nonzero_cond_counterexample:
  "flat_erracc_ok (flat_erracc_or (flat_erracc_init \<lparr>acc = 0\<rparr>) 2) = 1 \<and> (2 :: unsigned) \<noteq> 0"
  by (simp add: flat_erracc_ok_def flat_erracc_or_def flat_erracc_init_def
      flat_mask_is_zero_u32_def)

section \<open>Claims about buffer comparison\<close>

lemma memcmp_sign_range: "memcmp_sign xs ys = - 1 \<or> memcmp_sign xs ys = 0 \<or> memcmp_sign xs ys = 1"
  by (induction xs ys rule: memcmp_sign.induct) auto

lemma memcmp_sign_snoc:
  "length xs = length ys \<Longrightarrow>
   memcmp_sign (xs @ [x]) (ys @ [y]) =
     (if memcmp_sign xs ys \<noteq> 0 then memcmp_sign xs ys
      else if x < y then - 1 else if y < x then 1 else 0)"
  by (induction xs ys rule: list_induct2) auto

lemma memcmp_sign_less_iff:
  "length xs = length ys \<Longrightarrow>
   memcmp_sign xs ys = - 1 \<longleftrightarrow>
     (\<exists>k<length xs. (\<forall>j<k. xs ! j = ys ! j) \<and> xs ! k < ys ! k)"
proof (induction xs ys rule: list_induct2)
  case Nil
  then show ?case by simp
next
  case (Cons x xs y ys)
  then show ?case
    by (auto simp add: Ex_less_Suc2 All_less_Suc2)
qed

lemma memcmp_sign_greater_iff:
  "length xs = length ys \<Longrightarrow>
   memcmp_sign xs ys = 1 \<longleftrightarrow>
     (\<exists>k<length xs. (\<forall>j<k. xs ! j = ys ! j) \<and> ys ! k < xs ! k)"
proof (induction xs ys rule: list_induct2)
  case Nil
  then show ?case by simp
next
  case (Cons x xs y ys)
  then show ?case
    by (auto simp add: Ex_less_Suc2 All_less_Suc2)
qed

lemma memcmp_sign_zero_iff:
  "length xs = length ys \<Longrightarrow> memcmp_sign xs ys = 0 \<longleftrightarrow> xs = ys"
  by (induction xs ys rule: list_induct2) auto


lemma unat_ucast_u8_u32: "unat (ucast (x :: u8) :: u32) = unat x"
proof -
  have "unat x < 2 ^ 8" using unsigned_less [of x, where ?'a = nat] by simp
  then have "unat x < 2 ^ 32" by simp
  then show ?thesis by (simp add: unsigned_ucast_eq take_bit_nat_eq_self)
qed

lemma ucast_u8_u32_less_iff: "(ucast (x :: u8) :: u32) < ucast (y :: u8) \<longleftrightarrow> x < y"
  by (simp add: word_less_nat_alt unat_ucast_u8_u32)

lemma ucast_u8_u32_eq_iff: "(ucast (x :: u8) :: u32) = ucast (y :: u8) \<longleftrightarrow> x = y"
  by (simp add: word_unat_eq_iff unat_ucast_u8_u32)

lemma ucast_u8_u32_zero_iff: "(ucast (x :: u8) :: u32) = 0 \<longleftrightarrow> x = 0"
  using ucast_u8_u32_eq_iff [of x 0] by simp

lemma mem_eq_loop_zero_iff:
  "mem_eq_loop a b k = 0 \<longleftrightarrow> (\<forall>i<k. a ! i = b ! i)"
  by (induction k)
     (simp_all add: or_eq_0_iff ucast_u8_u32_zero_iff xor_eq_0_word less_Suc_eq, blast)

lemma mem_cmp_loop_eq:
  "k \<le> length a \<Longrightarrow> k \<le> length b \<Longrightarrow>
   mem_cmp_loop a b k =
     (let s = memcmp_sign (take k a) (take k b)
      in (if s \<noteq> 0 then - 1 else 0, if s = - 1 then - 1 else 0, if s = 1 then - 1 else 0))"
proof (induction k)
  case 0
  then show ?case by simp
next
  case (Suc k)
  then have ka: "k < length a" and kb: "k < length b" by simp_all
  have ih: "mem_cmp_loop a b k =
     (let s = memcmp_sign (take k a) (take k b)
      in (if s \<noteq> 0 then - 1 else 0, if s = - 1 then - 1 else 0, if s = 1 then - 1 else 0))"
    using Suc by simp
  have len: "length (take k a) = length (take k b)" using ka kb by simp
  have snoc: "memcmp_sign (take (Suc k) a) (take (Suc k) b) =
     (if memcmp_sign (take k a) (take k b) \<noteq> 0 then memcmp_sign (take k a) (take k b)
      else if a ! k < b ! k then - 1 else if b ! k < a ! k then 1 else 0)"
    using memcmp_sign_snoc [OF len, of "a ! k" "b ! k"] ka kb
    by (simp add: take_Suc_conv_app_nth)
  show ?case
    using memcmp_sign_range [of "take k a" "take k b"]
    by (auto simp add: ih snoc Let_def mask_lt_u32_eq mask_eq_u32_eq
        ucast_u8_u32_less_iff ucast_u8_u32_eq_iff)
qed


text \<open>
  Claim C3. For byte buffers \<open>a\<close>, \<open>b\<close> of equal length \<open>n\<close>, \<open>flat_mem_cmp\<close>
  returns \<open>-1\<close>, \<open>0\<close> or \<open>+1\<close>, the sign of the lexicographic comparison of the
  buffers as unsigned bytes (\<open>memcmp_sign\<close>): \<open>-1\<close> exactly when the first differing
  byte of \<open>a\<close> is the smaller one, \<open>+1\<close> exactly when it is the larger one, \<open>0\<close>
  exactly when the buffers are equal. \<open>flat_mem_eq\<close> returns \<open>1\<close> exactly when the
  buffers are equal byte for byte and \<open>0\<close> otherwise. For \<open>n = 0\<close> the results are
  \<open>0\<close> and \<open>1\<close>.
\<close>

theorem mem_cmp_sign_and_mem_eq:
  assumes "length a = unat n" and "length b = unat n"
  shows "flat_mem_cmp a b n = Inr (memcmp_sign a b)
       \<and> (memcmp_sign a b = - 1 \<or> memcmp_sign a b = 0 \<or> memcmp_sign a b = 1)
       \<and> (memcmp_sign a b = - 1 \<longleftrightarrow>
            (\<exists>k<unat n. (\<forall>j<k. a ! j = b ! j) \<and> a ! k < b ! k))
       \<and> (memcmp_sign a b = 1 \<longleftrightarrow>
            (\<exists>k<unat n. (\<forall>j<k. a ! j = b ! j) \<and> b ! k < a ! k))
       \<and> (memcmp_sign a b = 0 \<longleftrightarrow> a = b)
       \<and> flat_mem_eq a b n = Inr (if a = b then 1 else 0)
       \<and> (n = 0 \<longrightarrow> flat_mem_cmp a b n = Inr 0 \<and> flat_mem_eq a b n = Inr 1)"
proof -
  have len: "length a = length b" using assms by simp
  have cmp: "flat_mem_cmp a b n = Inr (memcmp_sign a b)"
    using assms memcmp_sign_range [of a b]
    by (auto simp add: flat_mem_cmp_def mem_cmp_loop_eq Let_def flat_mask_to_bit_u32_def)
  have eq_iff: "(\<forall>i<unat n. a ! i = b ! i) \<longleftrightarrow> a = b"
    using assms by (auto simp add: list_eq_iff_nth_eq)
  have eq: "flat_mem_eq a b n = Inr (if a = b then 1 else 0)"
    using assms
    by (simp add: flat_mem_eq_def mask_is_zero_u32_eq mem_eq_loop_zero_iff eq_iff)
  have empty: "n = 0 \<longrightarrow> flat_mem_cmp a b n = Inr 0 \<and> flat_mem_eq a b n = Inr 1"
    using assms cmp eq by auto
  show ?thesis
    using cmp eq empty memcmp_sign_range [of a b] memcmp_sign_less_iff [OF len]
      memcmp_sign_greater_iff [OF len] memcmp_sign_zero_iff [OF len] assms
    by simp
qed

theorem mem_cmp_sign_and_mem_eq_witness:
  "length [1, 2, 3 :: u8] = unat (3 :: size_t)
   \<and> flat_mem_cmp [1, 2, 3] [1, 2, 4] 3 = Inr (- 1)
   \<and> flat_mem_cmp [1, 2, 5] [1, 2, 4] 3 = Inr 1
   \<and> flat_mem_cmp [1, 2, 3] [1, 2, 3] 3 = Inr 0
   \<and> flat_mem_eq [1, 2, 3] [1, 2, 3] 3 = Inr 1
   \<and> flat_mem_eq [1, 2, 3] [1, 2, 4] 3 = Inr 0
   \<and> flat_mem_cmp [] [] 0 = Inr 0 \<and> flat_mem_eq [] [] 0 = Inr 1"
  using mem_cmp_sign_and_mem_eq [of "[1, 2, 3]" 3 "[1, 2, 4]", THEN conjunct1]
    mem_cmp_sign_and_mem_eq [of "[1, 2, 5]" 3 "[1, 2, 4]", THEN conjunct1]
    mem_cmp_sign_and_mem_eq [of "[1, 2, 3]" 3 "[1, 2, 3]", THEN conjunct1]
    mem_cmp_sign_and_mem_eq [of "[1, 2, 3]" 3 "[1, 2, 3]"]
    mem_cmp_sign_and_mem_eq [of "[1, 2, 3]" 3 "[1, 2, 4]"]
    mem_cmp_sign_and_mem_eq [of "[]" 0 "[]"]
  by simp

section \<open>Claims about the constant-time division\<close>

lemma long_div_step:
  fixes M D b :: nat
  assumes D: "0 < D" and b: "b \<le> 1"
  shows "(2 * M + b) mod D =
           (if 2 * (M mod D) + b < D then 2 * (M mod D) + b else 2 * (M mod D) + b - D)"
    and "(2 * M + b) div D =
           2 * (M div D) + (if 2 * (M mod D) + b < D then 0 else 1)"
proof -
  let ?r = "2 * (M mod D) + b"
  have split: "2 * M + b = (2 * (M div D)) * D + ?r"
  proof -
    have "M = (M div D) * D + M mod D" by simp
    then have "2 * M = 2 * ((M div D) * D) + 2 * (M mod D)"
      by (metis distrib_left)
    then show ?thesis by simp
  qed
  have "M mod D < D" using D by simp
  then have r2: "?r < 2 * D" using b by linarith
  have rdiv: "?r div D = (if ?r < D then 0 else 1)"
  proof (cases "?r < D")
    case True
    then show ?thesis by simp
  next
    case False
    then have "?r - D < D" and "D \<le> ?r" using r2 by linarith+
    then have "?r div D = 1" using D
      by (metis div_less le_div_geq plus_1_eq_Suc add.right_neutral)
    then show ?thesis using False by simp
  qed
  have rmod: "?r mod D = (if ?r < D then ?r else ?r - D)"
  proof (cases "?r < D")
    case True
    then show ?thesis by simp
  next
    case False
    then have "?r - D < D" and "D \<le> ?r" using r2 by linarith+
    then have "?r mod D = ?r - D"
      by (metis le_mod_geq mod_less)
    then show ?thesis using False by simp
  qed
  show "(2 * M + b) mod D = (if ?r < D then ?r else ?r - D)"
    by (simp only: split mod_mult_self3 rmod)
  show "(2 * M + b) div D = 2 * (M div D) + (if ?r < D then 0 else 1)"
    using D by (simp only: split div_mult_self3 [OF less_imp_neq [OF D, symmetric]] rdiv)
qed

lemma bit_in_word:
  fixes n :: "'a::len word"
  shows "drop_bit i n AND 1 = of_bool (bit n i)"
  by (simp add: and_one_eq mod_2_eq_odd bit_iff_odd_drop_bit)

lemma bit_in_nat:
  fixes n :: "'a::len word"
  shows "unat (drop_bit i n AND 1) = (unat n div 2 ^ i) mod 2"
proof -
  have "bit n i = bit (unat n) i" by (simp add: bit_unsigned_iff)
  then have "bit n i = odd (unat n div 2 ^ i)" by (simp add: bit_nat_def)
  then show ?thesis by (simp add: bit_in_word mod_2_eq_odd)
qed

lemma shift_in_word:
  fixes rv n :: "'a::len word"
  shows "push_bit 1 rv OR (drop_bit i n AND 1) = 2 * rv + (drop_bit i n AND 1)"
proof -
  have e: "push_bit 1 rv + of_bool (bit n i) = push_bit 1 rv OR of_bool (bit n i)"
  proof (rule disjunctive_add)
    fix m
    show "\<not> bit (push_bit 1 rv) m \<or> \<not> bit (of_bool (bit n i) :: 'a word) m"
      by (cases m) (simp_all add: bit_0 bit_of_bool_iff)
  qed
  have "push_bit 1 rv OR (drop_bit i n AND 1) = push_bit 1 rv OR of_bool (bit n i)"
    by (simp only: bit_in_word)
  also have "\<dots> = push_bit 1 rv + of_bool (bit n i)"
    by (simp only: e)
  also have "\<dots> = 2 * rv + (drop_bit i n AND 1)"
    by (simp only: bit_in_word push_bit_eq_mult power_one_right mult.commute)
  finally show ?thesis .
qed

lemma unat_of_nat_small:
  "X < 2 ^ LENGTH('a) \<Longrightarrow> unat (of_nat X :: 'a::len word) = X"
  by (simp only: unat_of_nat mod_less)

lemma shift_in_nat:
  fixes rv n :: "'a::len word"
  assumes "2 * unat rv + 1 < 2 ^ LENGTH('a)"
  shows "unat (push_bit 1 rv OR (drop_bit i n AND 1)) = 2 * unat rv + (unat n div 2 ^ i) mod 2"
proof -
  let ?b = "(unat n div 2 ^ i) mod 2"
  have "?b \<le> 1" by simp
  then have lt: "2 * unat rv + ?b < 2 ^ LENGTH('a)" using assms by linarith
  have "2 * rv + (drop_bit i n AND 1) = of_nat (2 * unat rv + unat (drop_bit i n AND 1))"
    by simp
  then have "push_bit 1 rv OR (drop_bit i n AND 1) = of_nat (2 * unat rv + ?b)"
    by (simp only: shift_in_word bit_in_nat)
  then show ?thesis using unat_of_nat_small [OF lt] by (simp only:)
qed

lemma cond_sub_word:
  fixes rv d :: "'a::len word"
  shows "rv - (d AND NOT (if rv < d then - 1 else 0)) = (if rv < d then rv else rv - d)"
  by simp

lemma cond_sub_nat:
  fixes rv d :: "'a::len word"
  shows "unat (if rv < d then rv else rv - d) =
    (if unat rv < unat d then unat rv else unat rv - unat d)"
  by (simp add: word_less_nat_alt unat_sub word_le_nat_alt)

lemma quot_bit_word:
  fixes qv :: "'a::len word"
  shows "qv OR (push_bit i 1 AND NOT (if c then - 1 else 0)) = (if c then qv else qv OR push_bit i 1)"
  by simp

lemma quot_bit_nat:
  fixes qv :: "'a::len word"
  assumes q: "unat qv = Q * 2 ^ Suc i" and lt: "unat qv + 2 ^ i < 2 ^ LENGTH('a)"
  shows "unat (qv OR push_bit i 1) = unat qv + 2 ^ i"
proof -
  have "\<not> bit (unat qv) i"
    by (simp add: q bit_nat_def)
  then have nb: "\<not> bit qv i" by (simp add: bit_unsigned_iff)
  have e: "qv + push_bit i 1 = qv OR push_bit i 1"
  proof (rule disjunctive_add)
    fix m
    show "\<not> bit qv m \<or> \<not> bit (push_bit i 1 :: 'a word) m"
      using nb by (auto simp add: bit_exp_iff)
  qed
  have "qv + push_bit i 1 = of_nat (unat qv + 2 ^ i)"
    by (simp add: push_bit_eq_mult)
  then have "qv OR push_bit i 1 = of_nat (unat qv + 2 ^ i)"
    by (simp only: e)
  then show ?thesis using unat_of_nat_small [OF lt] by (simp only:)
qed


lemma div_step_generic:
  fixes n d qv rv :: "'a::len word"
  assumes D: "d \<noteq> 0" and i: "i < LENGTH('a)"
    and R: "unat rv = (unat n div 2 ^ Suc i) mod unat d"
    and Q: "unat qv = ((unat n div 2 ^ Suc i) div unat d) * 2 ^ Suc i"
  defines "rv1 \<equiv> push_bit 1 rv OR (drop_bit i n AND 1)"
  shows "unat (rv1 - (d AND NOT (if rv1 < d then - 1 else 0))) = (unat n div 2 ^ i) mod unat d"
    and "unat (qv OR (push_bit i 1 AND NOT (if rv1 < d then - 1 else 0)))
           = ((unat n div 2 ^ i) div unat d) * 2 ^ i"
proof -
  let ?N = "unat n" and ?D = "unat d"
  let ?M = "?N div 2 ^ Suc i" and ?b = "(?N div 2 ^ i) mod 2"
  have Dpos: "0 < ?D" using D by (simp add: unat_gt_0)
  have b1: "?b \<le> 1" by simp
  have half: "?M = (?N div 2 ^ i) div 2"
    by (simp only: power_Suc2 div_mult2_eq)
  have NM: "?N div 2 ^ i = 2 * ?M + ?b"
    unfolding half by simp
  have "?N < 2 ^ LENGTH('a)" by (rule unsigned_less)
  also have "(2::nat) ^ LENGTH('a) = 2 ^ (LENGTH('a) - Suc i) * 2 ^ Suc i"
  proof -
    have "LENGTH('a) = (LENGTH('a) - Suc i) + Suc i" using i by simp
    then show ?thesis by (metis power_add)
  qed
  finally have Mlt: "?M < 2 ^ (LENGTH('a) - Suc i)"
    by (rule less_mult_imp_div_less)
  have "unat rv \<le> ?M" unfolding R by (rule mod_less_eq_dividend)
  then have "2 * unat rv + 1 < 2 * 2 ^ (LENGTH('a) - Suc i)" using Mlt by linarith
  also have "\<dots> \<le> 2 ^ LENGTH('a)"
  proof -
    have "(2::nat) * 2 ^ (LENGTH('a) - Suc i) = 2 ^ (LENGTH('a) - i)"
      using i by (simp add: Suc_diff_Suc flip: power_Suc)
    also have "\<dots> \<le> 2 ^ LENGTH('a)" by (rule power_increasing) simp_all
    finally show ?thesis .
  qed
  finally have room: "2 * unat rv + 1 < 2 ^ LENGTH('a)" .
  have rv1: "unat rv1 = 2 * (?M mod ?D) + ?b"
    unfolding rv1_def using shift_in_nat [OF room, of i n] R by simp
  have lt: "rv1 < d \<longleftrightarrow> 2 * (?M mod ?D) + ?b < ?D"
    by (simp add: word_less_nat_alt rv1)
  have "unat (rv1 - (d AND NOT (if rv1 < d then - 1 else 0)))
      = (if unat rv1 < ?D then unat rv1 else unat rv1 - ?D)"
    by (simp only: cond_sub_word cond_sub_nat)
  also have "\<dots> = (2 * ?M + ?b) mod ?D"
    by (simp only: rv1 long_div_step(1) [OF Dpos b1])
  finally show "unat (rv1 - (d AND NOT (if rv1 < d then - 1 else 0))) = (?N div 2 ^ i) mod ?D"
    by (simp only: NM [symmetric])
  have "(2 * ?M + ?b) div ?D = 2 * (?M div ?D) + (if rv1 < d then 0 else 1)"
    by (simp only: long_div_step(2) [OF Dpos b1] lt)
  then have quot: "(?N div 2 ^ i) div ?D = 2 * (?M div ?D) + (if rv1 < d then 0 else 1)"
    by (simp only: NM [symmetric])
  show "unat (qv OR (push_bit i 1 AND NOT (if rv1 < d then - 1 else 0)))
           = ((?N div 2 ^ i) div ?D) * 2 ^ i"
  proof (cases "rv1 < d")
    case True
    have "((?N div 2 ^ i) div ?D) * 2 ^ i = unat qv"
      using True by (simp add: quot Q)
    moreover have "qv OR (push_bit i 1 AND NOT (if rv1 < d then - 1 else 0)) = qv"
      using True by simp
    ultimately show ?thesis by (simp only:)
  next
    case False
    have eq: "((?N div 2 ^ i) div ?D) * 2 ^ i = unat qv + 2 ^ i"
      using False by (simp add: quot Q add_mult_distrib)
    have "((?N div 2 ^ i) div ?D) * 2 ^ i \<le> (?N div 2 ^ i) * 2 ^ i"
      by (rule mult_le_mono1) (rule div_le_dividend)
    also have "\<dots> \<le> ?N" by (rule div_times_less_eq_dividend)
    also have "\<dots> < 2 ^ LENGTH('a)" by (rule unsigned_less)
    finally have "unat qv + 2 ^ i < 2 ^ LENGTH('a)"
      by (simp only: eq)
    from quot_bit_nat [OF Q this]
    have "unat (qv OR push_bit i 1) = unat qv + 2 ^ i" .
    moreover have "qv OR (push_bit i 1 AND NOT (if rv1 < d then - 1 else 0)) = qv OR push_bit i 1"
      using False by simp
    ultimately show ?thesis by (simp only: eq)
  qed
qed


lemma div_mod_u64_loop_correct:
  "d \<noteq> 0 \<Longrightarrow> k \<le> 64 \<Longrightarrow>
   unat rv = (unat n div 2 ^ k) mod unat d \<Longrightarrow>
   unat qv = ((unat n div 2 ^ k) div unat d) * 2 ^ k \<Longrightarrow>
   div_mod_u64_loop n d k (qv, rv) = (n div d, n mod d)"
proof (induction k arbitrary: qv rv)
  case 0
  then have "unat rv = unat (n mod d)" and "unat qv = unat (n div d)"
    by (simp_all add: unat_mod unat_div)
  then show ?case by (simp add: word_unat_eq_iff)
next
  case (Suc i)
  then have i: "i < LENGTH(64)" and i': "i \<le> 64" by simp_all
  note step = div_step_generic [OF Suc.prems(1) i Suc.prems(3) Suc.prems(4)]
  show ?case
    by (simp only: div_mod_u64_loop.simps Let_def mask_lt_u64_eq)
       (rule Suc.IH [OF Suc.prems(1) i' step])
qed

lemma div_mod_u32_loop_correct:
  "d \<noteq> 0 \<Longrightarrow> k \<le> 32 \<Longrightarrow>
   unat rv = (unat n div 2 ^ k) mod unat d \<Longrightarrow>
   unat qv = ((unat n div 2 ^ k) div unat d) * 2 ^ k \<Longrightarrow>
   div_mod_u32_loop n d k (qv, rv) = (n div d, n mod d)"
proof (induction k arbitrary: qv rv)
  case 0
  then have "unat rv = unat (n mod d)" and "unat qv = unat (n div d)"
    by (simp_all add: unat_mod unat_div)
  then show ?case by (simp add: word_unat_eq_iff)
next
  case (Suc i)
  then have i: "i < LENGTH(32)" and i': "i \<le> 32" by simp_all
  note step = div_step_generic [OF Suc.prems(1) i Suc.prems(3) Suc.prems(4)]
  show ?case
    by (simp only: div_mod_u32_loop.simps Let_def mask_lt_u32_eq)
       (rule Suc.IH [OF Suc.prems(1) i' step])
qed

lemma div_mod_u64_loop_run:
  assumes "d \<noteq> 0"
  shows "div_mod_u64_loop n d 64 (0, 0) = (n div d, n mod d)"
proof -
  have "unat n < 2 ^ 64" using unsigned_less [of n, where ?'a = nat] by simp
  then have z: "unat n div 2 ^ 64 = 0" by simp
  show ?thesis
    by (rule div_mod_u64_loop_correct [OF assms]) (simp_all only: z, simp_all)
qed

lemma div_mod_u32_loop_run:
  assumes "d \<noteq> 0"
  shows "div_mod_u32_loop n d 32 (0, 0) = (n div d, n mod d)"
proof -
  have "unat n < 2 ^ 32" using unsigned_less [of n, where ?'a = nat] by simp
  then have z: "unat n div 2 ^ 32 = 0" by simp
  show ?thesis
    by (rule div_mod_u32_loop_correct [OF assms]) (simp_all only: z, simp_all)
qed

lemma div_mod_ct_u64_nonzero:
  "d \<noteq> 0 \<Longrightarrow> flat_div_mod_ct_u64 n d = (1, n div d, n mod d)"
  by (simp add: flat_div_mod_ct_u64_def div_mod_u64_loop_run mask_is_zero_u64_eq select_u64_eq)

lemma div_mod_ct_u32_nonzero:
  "d \<noteq> 0 \<Longrightarrow> flat_div_mod_ct_u32 n d = (1, n div d, n mod d)"
  by (simp add: flat_div_mod_ct_u32_def div_mod_u32_loop_run mask_is_zero_u32_eq select_u32_eq)

lemma div_mod_ct_u64_zero: "flat_div_mod_ct_u64 n 0 = (0, 0, 0)"
  by (simp add: flat_div_mod_ct_u64_def mask_is_zero_u64_eq select_u64_eq split: prod.split)

lemma div_mod_ct_u32_zero: "flat_div_mod_ct_u32 n 0 = (0, 0, 0)"
  by (simp add: flat_div_mod_ct_u32_def mask_is_zero_u32_eq select_u32_eq split: prod.split)

lemma word_div_mod_nat:
  fixes n d :: "'a::len word"
  assumes "d \<noteq> 0"
  shows "unat n = unat (n div d) * unat d + unat (n mod d)" and "n mod d < d"
proof -
  show "unat n = unat (n div d) * unat d + unat (n mod d)"
    by (simp add: unat_div unat_mod)
  have "0 < unat d" using assms by (simp add: unat_gt_0)
  then show "n mod d < d" by (simp add: word_less_nat_alt unat_mod)
qed


text \<open>
  Claim C2. For \<open>n\<close> and \<open>d\<close> of width 32 or 64, \<open>flat_div_mod_ct\<close> returns
  \<open>(ok, q, r)\<close> such that: if \<open>d \<noteq> 0\<close> then \<open>n = q * d + r\<close> (as numbers, without
  wrap-around) with \<open>r < d\<close> and \<open>ok = 1\<close>, so \<open>q\<close> and \<open>r\<close> are the quotient and the
  remainder; if \<open>d = 0\<close> then \<open>q = 0\<close>, \<open>r = 0\<close> and \<open>ok = 0\<close>.
\<close>

theorem div_mod_ct_quotient_remainder:
  "(d64 \<noteq> 0 \<longrightarrow>
      (case flat_div_mod_ct_u64 n64 d64 of (ok, q, r) \<Rightarrow>
         unat n64 = unat q * unat d64 + unat r \<and> r < d64 \<and> ok = 1
         \<and> q = n64 div d64 \<and> r = n64 mod d64))
   \<and> (d64 = 0 \<longrightarrow>
      (case flat_div_mod_ct_u64 n64 d64 of (ok, q, r) \<Rightarrow> q = 0 \<and> r = 0 \<and> ok = 0))
   \<and> (d32 \<noteq> 0 \<longrightarrow>
      (case flat_div_mod_ct_u32 n32 d32 of (ok, q, r) \<Rightarrow>
         unat n32 = unat q * unat d32 + unat r \<and> r < d32 \<and> ok = 1
         \<and> q = n32 div d32 \<and> r = n32 mod d32))
   \<and> (d32 = 0 \<longrightarrow>
      (case flat_div_mod_ct_u32 n32 d32 of (ok, q, r) \<Rightarrow> q = 0 \<and> r = 0 \<and> ok = 0))"
  using word_div_mod_nat [of d64 n64] word_div_mod_nat [of d32 n32]
  by (simp add: div_mod_ct_u64_nonzero div_mod_ct_u64_zero
      div_mod_ct_u32_nonzero div_mod_ct_u32_zero)

theorem div_mod_ct_quotient_remainder_witness:
  "(7 :: u64) \<noteq> 0 \<and> (7 :: u32) \<noteq> 0
   \<and> flat_div_mod_ct_u64 1000003 7 = (1, 142857, 4)
   \<and> flat_div_mod_ct_u32 1000003 7 = (1, 142857, 4)
   \<and> flat_div_mod_ct_u64 1000003 0 = (0, 0, 0)
   \<and> flat_div_mod_ct_u32 1000003 0 = (0, 0, 0)"
  using div_mod_ct_quotient_remainder [of 7 1000003 7 1000003]
    div_mod_ct_quotient_remainder [of 0 1000003 0 1000003]
  by (auto split: prod.splits)

section \<open>Claims about PKCS#7 unpadding\<close>

lemma unat_ucast_u8_sz: "unat (ucast (x :: u8) :: size_t) = unat x"
proof -
  have "unat x < 2 ^ 8" using unsigned_less [of x, where ?'a = nat] by simp
  then have "unat x < 2 ^ 64" by simp
  then show ?thesis by (simp add: unsigned_ucast_eq take_bit_nat_eq_self)
qed

lemma unat_ucast_sz_u8: "unat (ucast (x :: size_t) :: u8) = unat x mod 256"
  by (simp add: unsigned_ucast_eq take_bit_eq_mod)

lemma in_window_eq:
  assumes "i < 2 ^ 64"
  shows "(ucast (flat_mask_lt_sz (of_nat i) (ucast (pad :: u8)) AND 0xFF) :: u8)
     = (if i < unat pad then - 1 else 0)"
proof -
  have "(of_nat i :: size_t) < ucast pad \<longleftrightarrow> i < unat pad"
    using assms by (simp add: word_less_nat_alt unat_ucast_u8_sz unat_of_nat)
  then show ?thesis by (simp add: mask_lt_sz_eq)
qed

lemma tail_index:
  assumes "i < unat (len :: size_t)"
  shows "unat (len - 1 - of_nat i) = unat len - 1 - i"
proof -
  have l: "unat len < 2 ^ 64" using unsigned_less [of len, where ?'a = nat] by simp
  have "len - 1 - of_nat i = of_nat (unat len - 1 - i)"
    using assms by (simp add: of_nat_diff)
  also have "unat \<dots> = unat len - 1 - i"
    using l by (simp add: unat_of_nat)
  finally show ?thesis .
qed

lemma pkcs7_loop_zero_iff:
  "m \<le> unat len \<Longrightarrow>
   pkcs7_loop buf len pad m = 0 \<longleftrightarrow>
     (\<forall>i<m. i < unat pad \<longrightarrow> buf ! (unat len - 1 - i) = pad)"
proof (induction m)
  case 0
  then show ?case by simp
next
  case (Suc m)
  then have m: "m < unat len" by simp
  have "unat len < 2 ^ 64" using unsigned_less [of len, where ?'a = nat] by simp
  then have m64: "m < 2 ^ 64" using m by simp
  have ih: "pkcs7_loop buf len pad m = 0 \<longleftrightarrow>
     (\<forall>i<m. i < unat pad \<longrightarrow> buf ! (unat len - 1 - i) = pad)"
    using Suc by simp
  show ?case
    by (simp only: pkcs7_loop.simps Let_def in_window_eq [OF m64] tail_index [OF m])
       (auto simp add: or_eq_0_iff ih less_Suc_eq xor_eq_0_word ucast_u8_u32_zero_iff)
qed


lemma pkcs7_ok1_eq:
  "(of_bool (1 \<le> (ucast (pad :: u8) :: u32)) AND of_bool (pad \<le> (ucast (block :: size_t) :: u8))
      AND of_bool (pad \<le> (ucast (len :: size_t) :: u8)) :: unsigned)
   = of_bool (1 \<le> unat pad \<and> unat pad \<le> unat block mod 256 \<and> unat pad \<le> unat len mod 256)"
  by (simp add: word_le_nat_alt unat_ucast_u8_u32 unat_ucast_sz_u8)

text \<open>What the code computes, for every length and block size.\<close>

lemma pkcs7_unpad_ct_eq:
  assumes "len \<noteq> 0" and "block \<noteq> 0" and "unat len \<le> length buf"
  defines "pad \<equiv> buf ! (unat len - 1)"
  shows "flat_pkcs7_unpad_ct buf len block =
     Inr (if 1 \<le> unat pad \<and> unat pad \<le> unat block mod 256 \<and> unat pad \<le> unat len mod 256
             \<and> (\<forall>i<unat pad. buf ! (unat len - 1 - i) = pad)
          then (1, len - ucast pad) else (0, 0))"
proof -
  have idx: "unat (len - 1) = unat len - 1"
    using assms(1) by (simp add: unat_minus_one)
  have min: "unat (flat_min_sz len block) = min (unat len) (unat block)"
    by (simp add: min_sz_eq min_def word_le_nat_alt)
  have loop: "pkcs7_loop buf len pad (unat (flat_min_sz len block)) = 0 \<longleftrightarrow>
     (\<forall>i<min (unat len) (unat block). i < unat pad \<longrightarrow> buf ! (unat len - 1 - i) = pad)"
    unfolding min by (rule pkcs7_loop_zero_iff) simp
  have cover: "(\<forall>i<min (unat len) (unat block). i < unat pad \<longrightarrow> buf ! (unat len - 1 - i) = pad)
     \<longleftrightarrow> (\<forall>i<unat pad. buf ! (unat len - 1 - i) = pad)"
    if "unat pad \<le> unat block mod 256" and "unat pad \<le> unat len mod 256"
  proof -
    have "unat block mod 256 \<le> unat block" and "unat len mod 256 \<le> unat len" by simp_all
    then have "unat pad \<le> min (unat len) (unat block)" using that by linarith
    then show ?thesis by auto
  qed
  show ?thesis
    using assms(1-3) cover
    by (simp only: flat_pkcs7_unpad_ct_def Let_def idx pad_def [symmetric] pkcs7_ok1_eq)
       (auto simp add: mask_is_zero_u32_eq select_sz_eq loop)
qed


text \<open>
  Where neither the length nor the block size exceeds 255, the casts to
  \<^verbatim>\<open>uint8_t\<close> change nothing and the code meets the padding condition exactly.
\<close>

lemma pkcs7_padded_last_byte:
  assumes "pkcs7_padded buf n block k"
  shows "buf ! (n - 1) = of_nat k" and "unat (buf ! (n - 1)) = k"
proof -
  from assms have k: "1 \<le> k" "k \<le> 255" and all: "\<forall>i<k. buf ! (n - 1 - i) = of_nat k"
    by (simp_all add: pkcs7_padded_def)
  from all k(1) have "buf ! (n - 1 - 0) = of_nat k" by (intro all [rule_format]) simp
  then show a: "buf ! (n - 1) = of_nat k" by simp
  show "unat (buf ! (n - 1)) = k" unfolding a using k(2) by (simp add: unat_of_nat)
qed

lemma pkcs7_unpad_ct_byte_sized:
  assumes "length buf = unat len" and "unat len \<le> 255" and "unat block \<le> 255"
  shows "pkcs7_padded buf (unat len) (unat block) k \<Longrightarrow>
           flat_pkcs7_unpad_ct buf len block = Inr (1, len - of_nat k)"
    and "\<not> (\<exists>k. pkcs7_padded buf (unat len) (unat block) k) \<Longrightarrow>
           flat_pkcs7_unpad_ct buf len block = Inr (0, 0)"
proof -
  let ?pad = "buf ! (unat len - 1)"
  have small: "unat block mod 256 = unat block" "unat len mod 256 = unat len"
    using assms(2,3) by simp_all
  have pad_le: "unat ?pad \<le> 255"
    using unsigned_less [of ?pad, where ?'a = nat] by simp
  have code: "flat_pkcs7_unpad_ct buf len block =
     Inr (if pkcs7_padded buf (unat len) (unat block) (unat ?pad)
          then (1, len - ucast ?pad) else (0, 0))"
    if "len \<noteq> 0" and "block \<noteq> 0"
    using pkcs7_unpad_ct_eq [OF that, of buf] assms(1) pad_le
    by (simp add: small pkcs7_padded_def)
  {
    assume p: "pkcs7_padded buf (unat len) (unat block) k"
    then have "1 \<le> unat len" and "1 \<le> unat block" by (simp_all add: pkcs7_padded_def)
    then have nz: "len \<noteq> 0" "block \<noteq> 0" by auto
    have "unat ?pad = k" by (rule pkcs7_padded_last_byte(2) [OF p])
    moreover have "(ucast ?pad :: size_t) = of_nat k"
      using pkcs7_padded_last_byte(2) [OF p] by auto
    ultimately show "flat_pkcs7_unpad_ct buf len block = Inr (1, len - of_nat k)"
      using code [OF nz] p by simp
  }
  {
    assume n: "\<not> (\<exists>k. pkcs7_padded buf (unat len) (unat block) k)"
    show "flat_pkcs7_unpad_ct buf len block = Inr (0, 0)"
    proof (cases "len = 0 \<or> block = 0")
      case True
      then show ?thesis by (auto simp add: flat_pkcs7_unpad_ct_def)
    next
      case False
      then show ?thesis using code n by auto
    qed
  }
qed

text \<open>
  A buffer of 256 bytes that ends with the byte \<open>01\<close> meets the padding condition
  with \<open>k = 1\<close> for the block size 16.
\<close>

lemma pkcs7_padded_256:
  "pkcs7_padded (replicate 255 0x41 @ [0x01]) 256 16 1"
  by (simp add: pkcs7_padded_def nth_append)

text \<open>
  Claim C1. The claim says that \<open>flat_pkcs7_unpad_ct\<close> returns \<open>ok = 1\<close> with
  \<open>out_len = n - k\<close> whenever the buffer ends with \<open>k\<close> copies of the byte \<open>k\<close>,
  \<open>1 \<le> k \<le> block\<close>, \<open>k \<le> n\<close>. The code compares the padding byte with the length
  cast to \<^verbatim>\<open>uint8_t\<close>: a buffer of 256 bytes whose last byte is the valid padding
  \<open>01\<close> (one copy of the byte 1, block size 16) is rejected, with \<open>ok = 0\<close> and
  \<open>out_len = 0\<close>, where the claim gives \<open>ok = 1\<close> and \<open>out_len = 255\<close>.
\<close>

theorem pkcs7_unpad_ct_rejects_padded_256:
  "flat_pkcs7_unpad_ct (replicate 255 0x41 @ [0x01]) 256 16 = Inr (0, 0)
   \<and> length (replicate 255 0x41 @ [0x01 :: u8]) = 256
   \<and> (replicate 255 0x41 @ [0x01 :: u8]) ! 255 = 1"
proof
  have "flat_pkcs7_unpad_ct (replicate 255 0x41 @ [0x01]) 256 16 =
     Inr (if 1 \<le> unat ((replicate 255 0x41 @ [0x01 :: u8]) ! (unat (256 :: size_t) - 1))
              \<and> unat ((replicate 255 0x41 @ [0x01 :: u8]) ! (unat (256 :: size_t) - 1))
                  \<le> unat (16 :: size_t) mod 256
              \<and> unat ((replicate 255 0x41 @ [0x01 :: u8]) ! (unat (256 :: size_t) - 1))
                  \<le> unat (256 :: size_t) mod 256
              \<and> (\<forall>i<unat ((replicate 255 0x41 @ [0x01 :: u8]) ! (unat (256 :: size_t) - 1)).
                    (replicate 255 0x41 @ [0x01 :: u8]) ! (unat (256 :: size_t) - 1 - i)
                    = (replicate 255 0x41 @ [0x01 :: u8]) ! (unat (256 :: size_t) - 1))
          then (1, 256 - ucast ((replicate 255 0x41 @ [0x01 :: u8]) ! (unat (256 :: size_t) - 1)))
          else (0, 0))"
    by (rule pkcs7_unpad_ct_eq) simp_all
  then show "flat_pkcs7_unpad_ct (replicate 255 0x41 @ [0x01]) 256 16 = Inr (0, 0)"
    by (simp add: nth_append)
  show "length (replicate 255 0x41 @ [0x01 :: u8]) = 256
      \<and> (replicate 255 0x41 @ [0x01 :: u8]) ! 255 = 1"
    by (simp add: nth_append)
qed

end
